theory Spec2Isabelle
  imports Complex_Main "HOL-Library.AList" "HOL-Library.Sublist"
begin

section \<open>The Matryoshka indexer (k3\_mrl\_indexer.py)\<close>

text \<open>
  A shallow embedding of the class \<open>MatryoshkaIndexer\<close>. A Python \<open>str\<close> is a
  \<^typ>\<open>string\<close>, one \<^typ>\<open>char\<close> standing for one code point (texts are taken over the code
  points below 256). Python's \<open>int\<close> is \<^typ>\<open>int\<close>. The \<open>float32\<close> components of the
  embedding vectors are idealised as \<^typ>\<open>real\<close>: the development is about selection and
  ordering, not about rounding.
\<close>

subsection \<open>Python string primitives\<close>

text \<open>\<open>text.split("\n")\<close>: the lines of a text; the empty text has one empty line.\<close>

fun split_lines :: "string \<Rightarrow> string list" where
  "split_lines [] = [[]]"
| "split_lines (c # cs) =
     (if c = CHR 0x0A then [] # split_lines cs
      else (case split_lines cs of l # ls \<Rightarrow> (c # l) # ls | [] \<Rightarrow> [[c]]))"

text \<open>\<open>"\n".join(lines)\<close>.\<close>

fun join_lines :: "string list \<Rightarrow> string" where
  "join_lines [] = []"
| "join_lines [l] = l"
| "join_lines (l # m # ls) = l @ CHR 0x0A # join_lines (m # ls)"

text \<open>\<open>str(n)\<close> for a non-negative integer: its decimal digits.\<close>

definition digit_char :: "nat \<Rightarrow> char" where
  "digit_char d = ''0123456789'' ! d"

fun str_of_nat :: "nat \<Rightarrow> string" where
  "str_of_nat n = (if n < 10 then [digit_char n] else str_of_nat (n div 10) @ [digit_char (n mod 10)])"

declare str_of_nat.simps [simp del]

text \<open>
  \<open>str.isspace\<close> on one code point below 256, which is also what \<open>\s\<close> matches in a
  \<open>str\<close> pattern: tab to carriage return, the four separators \<open>0x1C\<close> to \<open>0x1F\<close>, the
  space, \<open>0x85\<close> and \<open>0xA0\<close>.
\<close>

definition is_space :: "char \<Rightarrow> bool" where
  "is_space c = (let n = of_char c :: nat in
     (9 \<le> n \<and> n \<le> 13) \<or> (28 \<le> n \<and> n \<le> 32) \<or> n = 133 \<or> n = 160)"

text \<open>\<open>text.strip()\<close>.\<close>

definition strip :: "string \<Rightarrow> string" where
  "strip s = rev (dropWhile is_space (rev (dropWhile is_space s)))"

text \<open>\<open>text.startswith(p)\<close> is \<^const>\<open>prefix\<close>, \<open>text.endswith(p)\<close> is \<^const>\<open>suffix\<close>.\<close>

text \<open>
  \<open>text.replace(old, "")\<close> for a non-empty \<open>old\<close>: every occurrence, found from left to
  right and not overlapping, is removed.
\<close>

fun remove_all :: "string \<Rightarrow> string \<Rightarrow> string" where
  "remove_all old [] = []"
| "remove_all old (c # cs) =
     (if old \<noteq> [] \<and> prefix old (c # cs) then remove_all old (drop (length old) (c # cs))
      else c # remove_all old cs)"

subsection \<open>The chunker: \<open>_text_splitter\<close> and \<open>smart_chunk\<close>\<close>

text \<open>The suffixes \<open>f"::{base_id}"\<close> and \<open>f"::{base_id}[{chunk_idx}]"\<close>.\<close>

definition suffix_plain :: "string \<Rightarrow> string" where
  "suffix_plain base_id = ''::'' @ base_id"

definition suffix_indexed :: "string \<Rightarrow> nat \<Rightarrow> string" where
  "suffix_indexed base_id chunk_idx = ''::'' @ base_id @ ''['' @ str_of_nat chunk_idx @ '']''"

text \<open>
  The \<open>for line in lines\<close> loop of \<open>_text_splitter\<close>, on the loop variables
  \<open>chunks\<close>, \<open>current_chunk\<close>, \<open>current_len\<close> and \<open>chunk_idx\<close>, followed by the
  flush of the remainder.
\<close>

fun splitter_loop ::
  "string \<Rightarrow> int \<Rightarrow> string list \<Rightarrow> (string \<times> string) list \<Rightarrow> string list \<Rightarrow> int \<Rightarrow> nat
     \<Rightarrow> (string \<times> string) list" where
  "splitter_loop base_id limit [] chunks current_chunk current_len chunk_idx =
     (if current_chunk \<noteq> []
      then chunks @ [(join_lines current_chunk, suffix_indexed base_id chunk_idx)]
      else chunks)"
| "splitter_loop base_id limit (line # lines) chunks current_chunk current_len chunk_idx =
     (let line_len = int (length line) + 1 in
      if current_len + line_len > limit \<and> current_chunk \<noteq> []
      then splitter_loop base_id limit lines
             (chunks @ [(join_lines current_chunk, suffix_indexed base_id chunk_idx)])
             ([] @ [line]) (0 + line_len) (chunk_idx + 1)
      else splitter_loop base_id limit lines chunks
             (current_chunk @ [line]) (current_len + line_len) chunk_idx)"

definition text_splitter :: "string \<Rightarrow> string \<Rightarrow> int \<Rightarrow> (string \<times> string) list" where
  "text_splitter text base_id limit =
     (if int (length text) \<le> limit then [(text, suffix_plain base_id)]
      else splitter_loop base_id limit (split_lines text) [] [] 0 0)"

text \<open>
  A line matched by \<open>^--- FILE: .*? ---$\<close> under \<open>re.MULTILINE\<close>: \<open>^\<close> and \<open>$\<close> hold
  only at the ends of a line and \<open>.\<close> does not match a newline, so a match is a whole
  line that starts with \<open>--- FILE: \<close> and, after that, ends with \<open> ---\<close>.
\<close>

definition is_marker :: "string \<Rightarrow> bool" where
  "is_marker l = (prefix ''--- FILE: '' l \<and> suffix '' ---'' (drop 10 l))"

text \<open>
  \<open>re.split(r"(^--- FILE: .*? ---$)", raw_text, flags=re.MULTILINE)\<close> on the lines of
  the text: the pieces between the matched lines, with the newlines next to a match left
  on the pieces, alternate with the matched lines. \<open>cur\<close> is the piece read so far.
\<close>

fun re_split_markers :: "string list \<Rightarrow> string \<Rightarrow> string list" where
  "re_split_markers [] cur = [cur]"
| "re_split_markers [l] cur = (if is_marker l then [cur, l, []] else [cur @ l])"
| "re_split_markers (l # ls) cur =
     (if is_marker l then cur # l # re_split_markers ls [CHR 0x0A]
      else re_split_markers ls (cur @ l @ [CHR 0x0A]))"

text \<open>The \<open>for part in parts\<close> loop of \<open>smart_chunk\<close>, on \<open>current_header\<close> and \<open>chunks\<close>.\<close>

fun parts_loop :: "int \<Rightarrow> string list \<Rightarrow> string \<Rightarrow> (string \<times> string) list \<Rightarrow> (string \<times> string) list" where
  "parts_loop limit [] current_header chunks = chunks"
| "parts_loop limit (part0 # parts) current_header chunks =
     (let part = strip part0 in
      if part = [] then parts_loop limit parts current_header chunks
      else if prefix ''--- FILE:'' part
      then parts_loop limit parts (strip (remove_all ''---'' (remove_all ''--- FILE:'' part))) chunks
      else parts_loop limit parts current_header (chunks @ text_splitter part current_header limit))"

definition smart_chunk :: "string \<Rightarrow> int \<Rightarrow> (string \<times> string) list" where
  "smart_chunk raw_text limit =
     (let parts = re_split_markers (split_lines raw_text) [] in
      if length parts > 1 then parts_loop limit parts ''preamble'' []
      else text_splitter raw_text ''main'' limit)"

text \<open>
  For stating when \<open>_text_splitter\<close> flushes: the running chunk \<open>chunk\<close> together with the
  first line of the chunk that follows it would have exceeded the limit, by the count the
  loop keeps (each line with one more for its newline).
\<close>

definition next_line_overflows :: "int \<Rightarrow> string \<Rightarrow> string \<Rightarrow> bool" where
  "next_line_overflows limit chunk next_chunk =
     (int (length chunk) + 1 + (int (length (hd (split_lines next_chunk))) + 1) > limit)"

subsection \<open>\<open>sanitize_content\<close>\<close>

text \<open>
  The pattern \<open>!\[.*?\]\(.*?\)\<close>, matched at the head of a text. \<open>.\<close> matches every
  character but the newline and both stars are lazy. \<open>find_close\<close> is \<open>.*?\)\<close>: it
  stops at the first \<open>)\<close> of the line. \<open>match_alt\<close> is \<open>.*?\]\(.*?\)\<close>: it takes
  the first \<open>](\<close> of the line after which a \<open>)\<close> follows on the same line. Each
  returns the number of characters the match consumes.
\<close>

fun find_close :: "string \<Rightarrow> nat option" where
  "find_close [] = None"
| "find_close (c # cs) =
     (if c = CHR '')'' then Some 1
      else if c = CHR 0x0A then None
      else map_option Suc (find_close cs))"

fun match_alt :: "string \<Rightarrow> nat option" where
  "match_alt [] = None"
| "match_alt (c # cs) =
     (case (if c = CHR '']'' \<and> prefix ''('' cs
            then map_option (\<lambda>n. n + 2) (find_close (drop 1 cs)) else None) of
        Some n \<Rightarrow> Some n
      | None \<Rightarrow> if c = CHR 0x0A then None else map_option Suc (match_alt cs))"

definition match_image :: "string \<Rightarrow> nat option" where
  "match_image s =
     (if prefix ''!['' s then map_option (\<lambda>n. n + 2) (match_alt (drop 2 s)) else None)"

text \<open>\<open>re.sub(r"!\[.*?\]\(.*?\)", "", text)\<close>: every match, from left to right, is removed.\<close>

fun sub_images :: "string \<Rightarrow> string" where
  "sub_images [] = []"
| "sub_images (c # cs) =
     (case match_image (c # cs) of
        Some n \<Rightarrow> sub_images (drop (n - 1) cs)
      | None \<Rightarrow> c # sub_images cs)"

text \<open>\<open>re.sub(r"\s+", " ", text)\<close>: every run of whitespace becomes one space.\<close>

function sub_spaces :: "string \<Rightarrow> string" where
  "sub_spaces [] = []"
| "sub_spaces (c # cs) =
     (if is_space c then CHR '' '' # sub_spaces (dropWhile is_space cs)
      else c # sub_spaces cs)"
  by pat_completeness auto
termination
  by (relation "measure length") (auto intro: le_imp_less_Suc length_dropWhile_le)

definition sanitize_content :: "string \<Rightarrow> string" where
  "sanitize_content text = strip (sub_spaces (sub_images text))"

subsection \<open>The index, the indexer and the disk\<close>

text \<open>
  One stored record \<open>{'vector': ..., 'hash': ..., 'snippet': ...}\<close>. The index is a Python
  \<open>dict\<close>, which keeps its keys in insertion order: an association list with
  \<^const>\<open>map_of\<close> for the lookup and \<^const>\<open>AList.update\<close> for \<open>index[path] = ...\<close> (an
  existing key keeps its place, a new key goes to the end).
\<close>

record entry =
  vector :: "real list"
  hash :: string
  snippet :: string

type_synonym index_t = "(string \<times> entry) list"

record indexer =
  index_file :: string
  dimension :: int
  index :: index_t
  unsaved_changes :: nat
  matrix_cache :: "real list list option"
  paths_cache :: "string list option"

definition BATCH_SIZE :: nat where "BATCH_SIZE = 5"
definition SAVE_INTERVAL :: nat where "SAVE_INTERVAL = 20"
definition SHORTLIST_DIM :: nat where "SHORTLIST_DIM = 64"
definition SHORTLIST_FACTOR :: int where "SHORTLIST_FACTOR = 15"

text \<open>
  The disk maps a path to the content of the file there. The content of a snapshot file
  is either a complete pickle of an index or a file that \<open>pickle.load\<close> rejects (empty or
  cut short).
\<close>

datatype file_data = Pickled index_t | Truncated

type_synonym disk = "string \<Rightarrow> file_data option"

text \<open>
  \<open>PurePath.name\<close>, \<open>PurePath.suffix\<close> and \<open>PurePath.with_suffix\<close> on a path written
  with \<open>/\<close>: the suffix of the last component starts at its last dot, unless that dot is
  its first or its last character.
\<close>

definition path_name :: "string \<Rightarrow> string" where
  "path_name p = rev (takeWhile (\<lambda>c. c \<noteq> CHR ''/'') (rev p))"

definition path_suffix :: "string \<Rightarrow> string" where
  "path_suffix p =
     (let name = path_name p; ext = rev (takeWhile (\<lambda>c. c \<noteq> CHR ''.'') (rev name)) in
      if CHR ''.'' \<in> set name \<and> ext \<noteq> [] \<and> length ext + 1 < length name
      then CHR ''.'' # ext else [])"

definition with_suffix :: "string \<Rightarrow> string \<Rightarrow> string" where
  "with_suffix p s = take (length p - length (path_suffix p)) p @ s"

text \<open>
  The input and output steps of \<open>save_index\<close>, in the order the method makes them. A
  fault names the step that does not happen: the step raises (the \<open>except\<close> clause of
  \<open>save_index\<close> then prints the error) or the process stops just before it. In both cases
  the disk is left as the earlier steps made it.
\<close>

datatype fault = NoFault | AtOpen | AtDump | AtUnlink | AtRename

text \<open>
  \<open>Path.rename\<close>: the file moves to the target, replacing what is there; a missing source
  raises.
\<close>

definition rename_file :: "string \<Rightarrow> string \<Rightarrow> disk \<Rightarrow> disk option" where
  "rename_file src dst d =
     (case d src of None \<Rightarrow> None | Some content \<Rightarrow> Some ((d(src := None))(dst \<mapsto> content)))"

text \<open>
  \<open>save_index\<close>. \<open>open(temp_file, "wb")\<close> creates the temporary file empty,
  \<open>pickle.dump\<close> fills it, \<open>unlink\<close> removes the snapshot file if there is one and
  \<open>rename\<close> moves the temporary file over. An exception anywhere leaves
  \<open>_unsaved_changes\<close> as it was.
\<close>

definition save_index :: "fault \<Rightarrow> indexer \<Rightarrow> disk \<Rightarrow> indexer \<times> disk" where
  "save_index f st d =
     (if unsaved_changes st = 0 then (st, d)
      else
        let temp_file = with_suffix (index_file st) ''.tmp'' in
        if f = AtOpen then (st, d)
        else
          let d1 = d(temp_file \<mapsto> Truncated) in
          if f = AtDump then (st, d1)
          else
            let d2 = d1(temp_file \<mapsto> Pickled (index st));
                exists = (d2 (index_file st) \<noteq> None) in
            if exists \<and> f = AtUnlink then (st, d2)
            else
              let d3 = (if exists then d2(index_file st := None) else d2) in
              if f = AtRename then (st, d3)
              else
                (case rename_file temp_file (index_file st) d3 of
                   None \<Rightarrow> (st, d3)
                 | Some d4 \<Rightarrow> (st\<lparr>unsaved_changes := 0\<rparr>, d4)))"

text \<open>
  \<open>load_index\<close>: a missing file leaves the index as it is, a file that does not unpickle
  gives the empty index; the caches are dropped in every case.
\<close>

definition load_index :: "indexer \<Rightarrow> disk \<Rightarrow> indexer" where
  "load_index st d =
     (let st' = (case d (index_file st) of
                   None \<Rightarrow> st
                 | Some (Pickled ix) \<Rightarrow> st\<lparr>index := ix\<rparr>
                 | Some Truncated \<Rightarrow> st\<lparr>index := []\<rparr>)
      in st'\<lparr>matrix_cache := None, paths_cache := None\<rparr>)"

subsection \<open>Indexing: \<open>_embed_batch_worker\<close> and \<open>run_indexing\<close>\<close>

text \<open>
  Two things are taken as parameters. \<open>digest\<close> is \<open>get_file_hash\<close>, the MD5 hex digest of
  a text. \<open>embed_content\<close> is the embedding service called with the dimension and a batch
  of texts: \<open>None\<close> when the call raises, otherwise the embeddings of the response (the
  empty list when the response has none).
\<close>

type_synonym embedder = "int \<Rightarrow> string list \<Rightarrow> real list list option"

definition embed_batch_worker ::
  "(string \<Rightarrow> string) \<Rightarrow> embedder \<Rightarrow> int \<Rightarrow> (string \<times> string) list
     \<Rightarrow> (string \<times> real list \<times> string \<times> string) list" where
  "embed_batch_worker digest embed_content out_dim batch_data =
     (let paths = map fst batch_data; texts = map snd batch_data in
      case embed_content out_dim texts of
        None \<Rightarrow> []
      | Some vectors \<Rightarrow>
          if vectors \<noteq> []
          then map (\<lambda>(path, vec, text). (path, vec, digest text, take 200 text))
                 (zip paths (zip vectors texts))
          else [])"

text \<open>The incremental check of \<open>run_indexing\<close>: the three nested \<open>if\<close>s before \<open>continue\<close>.\<close>

definition up_to_date :: "indexer \<Rightarrow> string \<Rightarrow> string \<Rightarrow> bool" where
  "up_to_date st full_path new_hash =
     (case map_of (index st) full_path of
        None \<Rightarrow> False
      | Some e \<Rightarrow> hash e = new_hash \<and> int (length (vector e)) = dimension st)"

text \<open>
  The \<open>for chunk_text, chunk_suffix in file_chunks\<close> loop, on \<open>tasks\<close> and
  \<open>current_batch\<close>.
\<close>

fun chunk_loop ::
  "(string \<Rightarrow> string) \<Rightarrow> indexer \<Rightarrow> string \<Rightarrow> (string \<times> string) list
     \<Rightarrow> (string \<times> string) list list \<times> (string \<times> string) list
     \<Rightarrow> (string \<times> string) list list \<times> (string \<times> string) list" where
  "chunk_loop digest st file_path [] (tasks, current_batch) = (tasks, current_batch)"
| "chunk_loop digest st file_path ((chunk_text, chunk_suffix) # file_chunks) (tasks, current_batch) =
     (let clean_text = sanitize_content chunk_text in
      if clean_text = [] then chunk_loop digest st file_path file_chunks (tasks, current_batch)
      else
        let full_path = file_path @ chunk_suffix;
            new_hash = digest clean_text in
        if up_to_date st full_path new_hash
        then chunk_loop digest st file_path file_chunks (tasks, current_batch)
        else if length (current_batch @ [(full_path, clean_text)]) \<ge> BATCH_SIZE
        then chunk_loop digest st file_path file_chunks
               (tasks @ [current_batch @ [(full_path, clean_text)]], [])
        else chunk_loop digest st file_path file_chunks
               (tasks, current_batch @ [(full_path, clean_text)]))"

text \<open>
  The chunks of one file. The module \<open>refrag\<close> is imported at run time and is not part
  of the sources: \<open>None\<close> stands for the \<open>ImportError\<close> fallback, \<open>Some\<close> carries
  \<open>get_strategy_for_file\<close> and \<open>slice_to_refrag\<close> (at window 128 and stride 64).
\<close>

type_synonym refrag = "((string \<Rightarrow> string) \<times> (string \<Rightarrow> (string \<times> string) list)) option"

definition file_chunks_of :: "refrag \<Rightarrow> string \<Rightarrow> string \<Rightarrow> (string \<times> string) list" where
  "file_chunks_of rf file_path raw_text =
     (case rf of
        None \<Rightarrow> smart_chunk raw_text 8000
      | Some (get_strategy_for_file, slice_to_refrag) \<Rightarrow>
          if get_strategy_for_file (path_name file_path) = ''refrag''
          then slice_to_refrag raw_text
          else smart_chunk raw_text 8000)"

text \<open>
  The \<open>for file_path in files\<close> loop. A file is its path with the text \<open>read_text\<close>
  returns, or \<open>None\<close> when reading raises: the file is then skipped.
\<close>

fun files_loop ::
  "(string \<Rightarrow> string) \<Rightarrow> refrag \<Rightarrow> indexer \<Rightarrow> (string \<times> string option) list
     \<Rightarrow> (string \<times> string) list list \<times> (string \<times> string) list
     \<Rightarrow> (string \<times> string) list list \<times> (string \<times> string) list" where
  "files_loop digest rf st [] acc = acc"
| "files_loop digest rf st ((file_path, None) # files) acc = files_loop digest rf st files acc"
| "files_loop digest rf st ((file_path, Some raw_text) # files) acc =
     files_loop digest rf st files
       (chunk_loop digest st file_path (file_chunks_of rf file_path raw_text) acc)"

text \<open>
  For stating what the loops enqueue: the chunks of all files that are not empty after
  sanitization, each as the pair of its key and its sanitized text, in the order of the
  loops.
\<close>

definition clean_chunks :: "refrag \<Rightarrow> (string \<times> string option) list \<Rightarrow> (string \<times> string) list" where
  "clean_chunks rf files =
     concat (map (\<lambda>(file_path, content).
       case content of
         None \<Rightarrow> []
       | Some raw_text \<Rightarrow>
           filter (\<lambda>(full_path, clean_text). clean_text \<noteq> [])
             (map (\<lambda>(chunk_text, chunk_suffix). (file_path @ chunk_suffix, sanitize_content chunk_text))
                (file_chunks_of rf file_path raw_text))) files)"

text \<open>The queue of batches: the loop over the files, then the flush of the last batch.\<close>

definition prepare_tasks ::
  "(string \<Rightarrow> string) \<Rightarrow> refrag \<Rightarrow> indexer \<Rightarrow> (string \<times> string option) list
     \<Rightarrow> (string \<times> string) list list" where
  "prepare_tasks digest rf st files =
     (case files_loop digest rf st files ([], []) of
        (tasks, current_batch) \<Rightarrow>
          if current_batch \<noteq> [] then tasks @ [current_batch] else tasks)"

text \<open>
  The entries of a list of results stored one after the other: what the merge of
  \<open>run_indexing\<close> leaves when every report prints.
\<close>

fun merge_results :: "(string \<times> real list \<times> string \<times> string) list \<Rightarrow> indexer \<Rightarrow> indexer" where
  "merge_results [] st = st"
| "merge_results ((path, vec, txt_hash, snip) # results) st =
     merge_results results
       (st\<lparr>index := AList.update path \<lparr>vector = vec, hash = txt_hash, snippet = snip\<rparr> (index st),
           unsaved_changes := unsaved_changes st + 1,
           matrix_cache := None,
           paths_cache := None\<rparr>)"

text \<open>
  The console. \<open>print(text)\<close> raises when the encoding of the standard output lacks a
  character of the text; \<open>stdout_encodes\<close> tells which texts can be printed. It is asked
  about the lines that carry data of the corpus or of the user (a path, a section name,
  a query); the fixed messages are ASCII, and the texts of the exceptions that the
  handlers print are taken to be printable.
\<close>

type_synonym console = "string \<Rightarrow> bool"

text \<open>\<open>path.split('::')[-1]\<close>: what follows the last \<open>::\<close> of a key.\<close>

fun after_last_sep :: "string \<Rightarrow> string \<Rightarrow> string" where
  "after_last_sep acc [] = acc"
| "after_last_sep acc [c] = acc @ [c]"
| "after_last_sep acc (c # d # cs) =
     (if c = CHR '':'' \<and> d = CHR '':'' then after_last_sep [] cs
      else after_last_sep (acc @ [c]) (d # cs))"

definition indexed_line :: "string \<Rightarrow> string" where
  "indexed_line path = ''[INDEXED] '' @ after_last_sep [] path"

definition read_error_line :: "string \<Rightarrow> string" where
  "read_error_line file_path = ''[WARN] Read error '' @ file_path"

text \<open>
  The handler of the loop over the files prints a warning for a file that cannot be read.
  When the console cannot print it, the warning itself raises, out of \<open>run_indexing\<close>,
  before anything is sent or stored.
\<close>

definition read_warning_raises :: "console \<Rightarrow> (string \<times> string option) list \<Rightarrow> bool" where
  "read_warning_raises stdout_encodes files =
     list_ex (\<lambda>(file_path, content). content = None \<and> \<not> stdout_encodes (read_error_line file_path))
       files"

text \<open>
  The merge of the results of one batch as \<open>run_indexing\<close> does it: each entry is
  stored, then reported with \<open>print\<close>. The print is not in a \<open>try\<close>: when it raises,
  the entry is stored, the rest of the batch is not, and the exception leaves
  \<open>run_indexing\<close> (the flag of the result).
\<close>

fun merge_loop ::
  "console \<Rightarrow> (string \<times> real list \<times> string \<times> string) list \<Rightarrow> indexer \<Rightarrow> indexer \<times> bool" where
  "merge_loop stdout_encodes [] st = (st, False)"
| "merge_loop stdout_encodes ((path, vec, txt_hash, snip) # results) st =
     (let st1 = st\<lparr>index := AList.update path \<lparr>vector = vec, hash = txt_hash, snippet = snip\<rparr> (index st),
                  unsaved_changes := unsaved_changes st + 1,
                  matrix_cache := None,
                  paths_cache := None\<rparr>
      in if stdout_encodes (indexed_line path) then merge_loop stdout_encodes results st1
         else (st1, True))"

text \<open>
  The \<open>for future in as_completed(...)\<close> loop over the batches in the order they
  complete. \<open>faults\<close> lists the fault of each call of \<open>save_index\<close> to come (none when
  the list is used up). The last component tells whether a print raised.
\<close>

definition next_fault :: "fault list \<Rightarrow> fault" where
  "next_fault faults = (case faults of [] \<Rightarrow> NoFault | f # _ \<Rightarrow> f)"

fun completed_loop ::
  "console \<Rightarrow> (string \<Rightarrow> string) \<Rightarrow> embedder \<Rightarrow> (string \<times> string) list list
     \<Rightarrow> indexer \<times> disk \<times> fault list \<Rightarrow> indexer \<times> disk \<times> fault list \<times> bool" where
  "completed_loop stdout_encodes digest embed_content [] (st, d, faults) = (st, d, faults, False)"
| "completed_loop stdout_encodes digest embed_content (batch # batches) (st, d, faults) =
     (let results = embed_batch_worker digest embed_content (dimension st) batch in
      if results \<noteq> [] then
        (case merge_loop stdout_encodes results st of
           (st1, True) \<Rightarrow> (st1, d, faults, True)
         | (st1, False) \<Rightarrow>
             if unsaved_changes st1 \<ge> SAVE_INTERVAL
             then (case save_index (next_fault faults) st1 d of
                     (st2, d2) \<Rightarrow>
                       completed_loop stdout_encodes digest embed_content batches (st2, d2, drop 1 faults))
             else completed_loop stdout_encodes digest embed_content batches (st1, d, faults))
      else completed_loop stdout_encodes digest embed_content batches (st, d, faults))"

text \<open>
  \<open>concurrent.futures.as_completed\<close>: the futures in the order they complete, which is
  any order. \<open>choices\<close> picks, at each step, which of the batches still running
  completes next; when the choices are used up the rest completes in the order of
  submission. Every batch completes once.
\<close>

fun as_completed :: "'a list \<Rightarrow> nat list \<Rightarrow> 'a list" where
  "as_completed [] choices = []"
| "as_completed (x # xs) [] = x # xs"
| "as_completed (x # xs) (c # choices) =
     (let i = c mod length (x # xs) in
      (x # xs) ! i # as_completed (take i (x # xs) @ drop (Suc i) (x # xs)) choices)"

text \<open>
  \<open>run_indexing\<close>. \<open>files\<close> is what \<open>walk_files\<close> found, each file with its text.
  The result is the indexer, the disk, the batches sent to the embedding service (one
  call each; all batches are submitted before the first result is merged) and whether
  the method raised instead of returning.
\<close>

record run_result =
  state_after :: indexer
  disk_after :: disk
  embed_calls :: "(string \<times> string) list list"
  raised :: bool

definition run_indexing ::
  "console \<Rightarrow> (string \<Rightarrow> string) \<Rightarrow> embedder \<Rightarrow> refrag \<Rightarrow> nat list \<Rightarrow> fault list
     \<Rightarrow> (string \<times> string option) list \<Rightarrow> int \<Rightarrow> indexer \<Rightarrow> disk \<Rightarrow> run_result" where
  "run_indexing stdout_encodes digest embed_content rf choices faults files0 limit st d =
     (let files = (if limit > 0 then take (nat limit) files0 else files0);
          tasks = prepare_tasks digest rf st files in
      if read_warning_raises stdout_encodes files
      then \<lparr>state_after = st, disk_after = d, embed_calls = [], raised = True\<rparr>
      else if tasks = [] then \<lparr>state_after = st, disk_after = d, embed_calls = [], raised = False\<rparr>
      else
        (case completed_loop stdout_encodes digest embed_content (as_completed tasks choices)
                (st, d, faults) of
           (st1, d1, faults1, True) \<Rightarrow>
             \<lparr>state_after = st1, disk_after = d1, embed_calls = tasks, raised = True\<rparr>
         | (st1, d1, faults1, False) \<Rightarrow>
             (case save_index (next_fault faults1) st1 d1 of
                (st2, d2) \<Rightarrow>
                  \<lparr>state_after = st2, disk_after = d2, embed_calls = tasks, raised = False\<rparr>)))"

subsection \<open>Search: the two-stage funnel\<close>

text \<open>The exceptions the body of \<open>search\<close> can raise.\<close>

datatype py_error = ServiceError | ValueError

text \<open>
  The embedding of the query: \<open>None\<close> when the call raises or the response carries no
  embedding, otherwise \<open>q_vec\<close>.
\<close>

type_synonym query_embedder = "int \<Rightarrow> string \<Rightarrow> real list option"

text \<open>Python's slice \<open>xs[:k]\<close>: a negative \<open>k\<close> counts from the end.\<close>

definition slice_to :: "int \<Rightarrow> 'a list \<Rightarrow> 'a list" where
  "slice_to k xs = (if k \<ge> 0 then take (nat k) xs else take (nat (int (length xs) + k)) xs)"

text \<open>
  \<open>np.argsort\<close>: the positions of the scores, in ascending order of score. NumPy's default
  sort does not promise an order among equal scores; on short arrays it is an insertion
  sort, which keeps equal scores in their order of position, and that is the order taken
  here.
\<close>

definition argsort :: "real list \<Rightarrow> nat list" where
  "argsort scores = sort_key (\<lambda>i. scores ! i) [0..<length scores]"

text \<open>\<open>np.linalg.norm\<close> of a vector, and the vector divided by its norm plus \<open>1e-9\<close>.\<close>

definition np_norm :: "real list \<Rightarrow> real" where
  "np_norm v = sqrt (\<Sum>x\<leftarrow>v. x * x)"

definition normalize_row :: "real list \<Rightarrow> real list" where
  "normalize_row v = map (\<lambda>x. x / (np_norm v + 1 / 10 ^ 9)) v"

text \<open>
  \<open>np.dot\<close> of a matrix and a vector: one dot product for each row; rows of another
  length than the vector raise.
\<close>

definition dot :: "real list \<Rightarrow> real list \<Rightarrow> real" where
  "dot u v = (\<Sum>(x, y)\<leftarrow>zip u v. x * y)"

definition np_dot :: "real list list \<Rightarrow> real list \<Rightarrow> py_error + real list" where
  "np_dot matrix v =
     (if list_all (\<lambda>row. length row = length v) matrix
      then Inr (map (\<lambda>row. dot row v) matrix) else Inl ValueError)"

text \<open>\<open>np.stack\<close>: the vectors as the rows of a matrix; it raises unless all have one length.\<close>

definition np_stack :: "real list list \<Rightarrow> py_error + real list list" where
  "np_stack vectors =
     (case vectors of
        [] \<Rightarrow> Inl ValueError
      | v # _ \<Rightarrow> if list_all (\<lambda>w. length w = length v) vectors then Inr vectors else Inl ValueError)"

text \<open>
  The cache: used when both parts are there, rebuilt from the index otherwise. When
  \<open>np.stack\<close> raises, the list of paths has already been stored.
\<close>

definition prepare_cache :: "indexer \<Rightarrow> indexer \<times> (py_error + string list \<times> real list list)" where
  "prepare_cache st =
     (case (matrix_cache st, paths_cache st) of
        (Some matrix, Some paths) \<Rightarrow> (st, Inr (paths, matrix))
      | _ \<Rightarrow>
          let st1 = st\<lparr>paths_cache := Some (map fst (index st))\<rparr> in
          (case np_stack (map (\<lambda>kv. vector (snd kv)) (index st)) of
             Inl e \<Rightarrow> (st1, Inl e)
           | Inr matrix \<Rightarrow> (st1\<lparr>matrix_cache := Some matrix\<rparr>, Inr (map fst (index st), matrix))))"

text \<open>Stage 1: the scores on the first 64 components, and the shortlist.\<close>

definition stage1_scores :: "real list list \<Rightarrow> real list \<Rightarrow> py_error + real list" where
  "stage1_scores matrix q_vec =
     (let q_short = take SHORTLIST_DIM q_vec;
          m_short = map (take SHORTLIST_DIM) matrix;
          m_short_norm = map normalize_row m_short;
          q_short_norm = normalize_row q_short
      in np_dot m_short_norm q_short_norm)"

definition select_candidates :: "real list \<Rightarrow> nat \<Rightarrow> int \<Rightarrow> nat list" where
  "select_candidates scores_short n_paths top_k =
     (let k_cand = min (top_k * SHORTLIST_FACTOR) (int n_paths)
      in slice_to k_cand (rev (argsort scores_short)))"

text \<open>Stage 2: the scores of the candidates on all components.\<close>

definition stage2_scores :: "real list list \<Rightarrow> nat list \<Rightarrow> real list \<Rightarrow> py_error + real list" where
  "stage2_scores matrix candidate_idxs q_vec =
     (let m_full_subset = map (\<lambda>i. matrix ! i) candidate_idxs;
          m_full_norm = map normalize_row m_full_subset;
          q_full_norm = normalize_row q_vec
      in np_dot m_full_norm q_full_norm)"

record funnel =
  candidate_idxs :: "nat list"
  scores_full :: "real list"
  final_order :: "nat list"

definition search_funnel ::
  "string list \<Rightarrow> real list list \<Rightarrow> real list \<Rightarrow> int \<Rightarrow> py_error + funnel" where
  "search_funnel paths matrix q_vec top_k =
     (case stage1_scores matrix q_vec of
        Inl e \<Rightarrow> Inl e
      | Inr scores_short \<Rightarrow>
          let cand = select_candidates scores_short (length paths) top_k in
          (case stage2_scores matrix cand q_vec of
             Inl e \<Rightarrow> Inl e
           | Inr sf \<Rightarrow>
               Inr \<lparr>candidate_idxs = cand, scores_full = sf,
                    final_order = slice_to top_k (rev (argsort sf))\<rparr>))"

text \<open>
  One result \<open>{"path": ..., "score": ..., "snippet": ...}\<close>, and the loop that builds
  \<open>results_list\<close>. The loop sits in a \<open>try\<close> of its own: an index out of range or a path
  that the index does not have ends the loop, and what was collected is returned.
\<close>

record hit =
  path :: string
  score :: real
  hit_snippet :: string

fun results_loop ::
  "index_t \<Rightarrow> string list \<Rightarrow> nat list \<Rightarrow> real list \<Rightarrow> nat list \<Rightarrow> hit list \<Rightarrow> hit list" where
  "results_loop ix paths cand sf [] results_list = results_list"
| "results_loop ix paths cand sf (idx # order) results_list =
     (if idx < length cand \<and> cand ! idx < length paths \<and> idx < length sf
      then (case map_of ix (paths ! (cand ! idx)) of
              None \<Rightarrow> results_list
            | Some e \<Rightarrow>
                results_loop ix paths cand sf order
                  (results_list @
                    [\<lparr>path = paths ! (cand ! idx), score = sf ! idx,
                      hit_snippet = map (\<lambda>c. if c = CHR 0x0A then CHR '' '' else c) (snippet e)\<rparr>]))
      else results_list)"

text \<open>
  The inner \<open>try\<close> of \<open>search\<close> starts by printing a header that carries the query:
  when that raises, \<open>except Exception: pass\<close> leaves \<open>results_list\<close> empty. (The two
  prints for each result sit in a \<open>try\<close> of their own, before the result is appended:
  a raise there is dropped and the result is appended all the same.)
\<close>

definition results_header :: "string \<Rightarrow> string" where
  "results_header query = CHR 0x0A # ''--- Results for: '' @ [CHR 0x27] @ query @ [CHR 0x27] @ '' ---''"

definition results_try ::
  "console \<Rightarrow> string \<Rightarrow> index_t \<Rightarrow> string list \<Rightarrow> nat list \<Rightarrow> real list \<Rightarrow> nat list
     \<Rightarrow> hit list" where
  "results_try stdout_encodes query ix paths cand sf order =
     (if stdout_encodes (results_header query) then results_loop ix paths cand sf order [] else [])"

text \<open>The body of the outer \<open>try\<close> of \<open>search\<close>: an exception is the value \<open>Inl\<close>.\<close>

definition search_try ::
  "console \<Rightarrow> query_embedder \<Rightarrow> indexer \<Rightarrow> string \<Rightarrow> int
     \<Rightarrow> indexer \<times> (py_error + hit list)" where
  "search_try stdout_encodes embed_query st query top_k =
     (case embed_query (dimension st) query of
        None \<Rightarrow> (st, Inl ServiceError)
      | Some q_vec \<Rightarrow>
          (case prepare_cache st of
             (st1, Inl e) \<Rightarrow> (st1, Inl e)
           | (st1, Inr (paths, matrix)) \<Rightarrow>
               (case search_funnel paths matrix q_vec top_k of
                  Inl e \<Rightarrow> (st1, Inl e)
                | Inr f \<Rightarrow>
                    (st1, Inr (results_try stdout_encodes query (index st) paths
                                 (candidate_idxs f) (scores_full f) (final_order f))))))"

text \<open>
  \<open>search\<close>: the empty index returns at once; the \<open>except\<close> clause turns every
  exception of the body into the empty list. The result also records the queries sent to
  the embedding service and the indexer after the call.
\<close>

record search_result =
  hits :: "hit list"
  embedded_queries :: "string list"
  searcher_after :: indexer

definition search ::
  "console \<Rightarrow> query_embedder \<Rightarrow> indexer \<Rightarrow> string \<Rightarrow> int \<Rightarrow> search_result" where
  "search stdout_encodes embed_query st query top_k =
     (if index st = [] then \<lparr>hits = [], embedded_queries = [], searcher_after = st\<rparr>
      else
        (case search_try stdout_encodes embed_query st query top_k of
           (st1, Inl e) \<Rightarrow> \<lparr>hits = [], embedded_queries = [query], searcher_after = st1\<rparr>
         | (st1, Inr results_list) \<Rightarrow>
             \<lparr>hits = results_list, embedded_queries = [query], searcher_after = st1\<rparr>))"

text \<open>
  The shortlist of a search, for stating what the results are drawn from: each stage-1
  candidate with its key and the score stage 2 gives it, in shortlist order. It is empty
  when the search does not reach stage 2.
\<close>

definition cosine_full :: "real list \<Rightarrow> real list \<Rightarrow> real" where
  "cosine_full row q_vec = dot (normalize_row row) (normalize_row q_vec)"

definition search_shortlist ::
  "query_embedder \<Rightarrow> indexer \<Rightarrow> string \<Rightarrow> int \<Rightarrow> (string \<times> real) list" where
  "search_shortlist embed_query st query top_k =
     (if index st = [] then []
      else
        (case embed_query (dimension st) query of
           None \<Rightarrow> []
         | Some q_vec \<Rightarrow>
             (case prepare_cache st of
                (st1, Inl e) \<Rightarrow> []
              | (st1, Inr (paths, matrix)) \<Rightarrow>
                  (case stage1_scores matrix q_vec of
                     Inl e \<Rightarrow> []
                   | Inr scores_short \<Rightarrow>
                       map (\<lambda>i. (paths ! i, cosine_full (matrix ! i) q_vec))
                         (filter (\<lambda>i. i < length paths)
                            (select_candidates scores_short (length paths) top_k))))))"

text \<open>
  The cache of an indexer is consistent when it is absent or holds the keys of the index
  and its vectors, all of one length (every method of the class leaves it so).
\<close>

definition cache_ok :: "indexer \<Rightarrow> bool" where
  "cache_ok st =
     (case (matrix_cache st, paths_cache st) of
        (Some matrix, Some paths) \<Rightarrow>
          paths = map fst (index st) \<and> matrix = map (\<lambda>kv. vector (snd kv)) (index st)
      | _ \<Rightarrow> True)"

subsection \<open>Example data\<close>

text \<open>
  A store with two chunks whose vectors are equal, an empty store, an embedding service
  that answers every query with the vector \<open>(1, 0)\<close> and one that is down.
\<close>

definition example_store :: indexer where
  "example_store =
     \<lparr>index_file = ''/data/mrl_index.pkl'', dimension = 2,
      index = [(''a.txt::main'', \<lparr>vector = [1, 0], hash = ''h1'', snippet = ''alpha''\<rparr>),
               (''b.txt::main'', \<lparr>vector = [1, 0], hash = ''h2'', snippet = ''beta''\<rparr>)],
      unsaved_changes = 0, matrix_cache = None, paths_cache = None\<rparr>"

definition example_empty :: indexer where
  "example_empty =
     \<lparr>index_file = ''/data/mrl_index.pkl'', dimension = 2, index = [],
      unsaved_changes = 0, matrix_cache = None, paths_cache = None\<rparr>"

text \<open>A console that prints every text, and one that prints ASCII only.\<close>

definition utf8_console :: console where
  "utf8_console t = True"

definition ascii_console :: console where
  "ascii_console t = list_all (\<lambda>c. (of_char c :: nat) < 128) t"

definition embed_ok :: query_embedder where
  "embed_ok d query = Some [1, 0]"

definition embed_down :: query_embedder where
  "embed_down d query = None"

text \<open>Seventeen stage-1 scores, rising with the position.\<close>

definition example_scores :: "real list" where
  "example_scores = [0, 1, 2, 3, 4, 5, 6, 7, 8, 9, 10, 11, 12, 13, 14, 15, 16]"

text \<open>
  An indexer with two unsaved changes, and a disk that holds an earlier snapshot of one
  entry.
\<close>

definition example_dirty :: indexer where
  "example_dirty = example_store\<lparr>unsaved_changes := 2\<rparr>"

definition example_old_index :: index_t where
  "example_old_index =
     [(''a.txt::main'', \<lparr>vector = [1, 0], hash = ''h1'', snippet = ''alpha''\<rparr>)]"

definition example_disk :: disk where
  "example_disk = (\<lambda>p. None)(''/data/mrl_index.pkl'' \<mapsto> Pickled example_old_index)"

text \<open>
  An indexing run: one file of one line, a digest (any function of the text stands in
  for MD5 here), and an embedding service that answers each text with the vector
  \<open>(1, 0)\<close>.
\<close>

definition example_digest :: "string \<Rightarrow> string" where
  "example_digest t = rev t"

definition example_embedder :: embedder where
  "example_embedder d texts = Some (map (\<lambda>t. [1, 0]) texts)"

definition example_files :: "(string \<times> string option) list" where
  "example_files = [(''a.txt'', Some ''hello   world'')]"

definition empty_disk :: disk where
  "empty_disk = (\<lambda>p. None)"





subsection \<open>Properties of the chunker\<close>

lemma split_lines_nonempty [simp]: "split_lines s \<noteq> []"
  by (induction s) (auto split: list.splits)

lemma split_lines_no_newline: "l \<in> set (split_lines s) \<Longrightarrow> CHR 0x0A \<notin> set l"
proof (induction s arbitrary: l)
  case Nil
  then show ?case by simp
next
  case (Cons c cs)
  show ?case
  proof (cases "c = CHR 0x0A")
    case True
    with Cons show ?thesis by auto
  next
    case False
    obtain h t where ht: "split_lines cs = h # t"
      by (cases "split_lines cs") auto
    with Cons False show ?thesis by auto
  qed
qed

lemma join_split_lines [simp]: "join_lines (split_lines s) = s"
proof (induction s)
  case Nil
  show ?case by simp
next
  case (Cons c cs)
  obtain h t where ht: "split_lines cs = h # t"
    by (cases "split_lines cs") auto
  with Cons show ?case by (cases t) auto
qed

lemma split_lines_single: "CHR 0x0A \<notin> set l \<Longrightarrow> split_lines l = [l]"
  by (induction l) (auto split: list.splits)

lemma split_lines_app: "CHR 0x0A \<notin> set l \<Longrightarrow> split_lines (l @ CHR 0x0A # r) = l # split_lines r"
  by (induction l) (auto split: list.splits)

lemma split_join_lines:
  "g \<noteq> [] \<Longrightarrow> (\<And>l. l \<in> set g \<Longrightarrow> CHR 0x0A \<notin> set l) \<Longrightarrow> split_lines (join_lines g) = g"
proof (induction g rule: join_lines.induct)
  case 1
  then show ?case by simp
next
  case (2 l)
  then show ?case by (simp add: split_lines_single)
next
  case (3 l m ls)
  then show ?case by (simp add: split_lines_app)
qed

lemma join_lines_append:
  "xs \<noteq> [] \<Longrightarrow> ys \<noteq> [] \<Longrightarrow> join_lines (xs @ ys) = join_lines xs @ CHR 0x0A # join_lines ys"
proof (induction xs rule: join_lines.induct)
  case 1
  then show ?case by simp
next
  case (2 l)
  then show ?case by (cases ys) auto
next
  case (3 l m ls)
  then show ?case by simp
qed

lemma join_lines_pieces:
  "join_lines (map (\<lambda>c. join_lines (split_lines c)) cs) = join_lines (concat (map split_lines cs))"
proof (induction cs rule: join_lines.induct)
  case 1
  show ?case by simp
next
  case (2 l)
  show ?case by simp
next
  case (3 l m ls)
  have ne: "concat (map split_lines (m # ls)) \<noteq> []" by simp
  have "join_lines (concat (map split_lines (l # m # ls)))
      = join_lines (split_lines l @ concat (map split_lines (m # ls)))" by simp
  also have "\<dots> = join_lines (split_lines l) @ CHR 0x0A # join_lines (concat (map split_lines (m # ls)))"
    using join_lines_append [OF split_lines_nonempty ne] .
  finally show ?case using 3 by simp
qed

lemma splitter_loop_flush:
  "current_len + (int (length line) + 1) > limit \<Longrightarrow> current_chunk \<noteq> [] \<Longrightarrow>
   splitter_loop base_id limit (line # lines) chunks current_chunk current_len chunk_idx
     = splitter_loop base_id limit lines
         (chunks @ [(join_lines current_chunk, suffix_indexed base_id chunk_idx)])
         [line] (int (length line) + 1) (Suc chunk_idx)"
  by (simp add: Let_def)

lemma splitter_loop_keep:
  "\<not> (current_len + (int (length line) + 1) > limit \<and> current_chunk \<noteq> []) \<Longrightarrow>
   splitter_loop base_id limit (line # lines) chunks current_chunk current_len chunk_idx
     = splitter_loop base_id limit lines chunks (current_chunk @ [line])
         (current_len + (int (length line) + 1)) chunk_idx"
  by (auto simp: Let_def)

lemma splitter_loop_lines:
  "(\<And>l. l \<in> set (current_chunk @ lines) \<Longrightarrow> CHR 0x0A \<notin> set l) \<Longrightarrow>
   concat (map (\<lambda>c. split_lines (fst c)) (splitter_loop base_id limit lines chunks current_chunk current_len chunk_idx))
     = concat (map (\<lambda>c. split_lines (fst c)) chunks) @ current_chunk @ lines"
proof (induction lines arbitrary: chunks current_chunk current_len chunk_idx)
  case Nil
  then show ?case by (simp add: split_join_lines)
next
  case (Cons line lines)
  show ?case
  proof (cases "current_len + (int (length line) + 1) > limit \<and> current_chunk \<noteq> []")
    case True
    have "concat (map (\<lambda>c. split_lines (fst c))
            (splitter_loop base_id limit lines
               (chunks @ [(join_lines current_chunk, suffix_indexed base_id chunk_idx)])
               [line] (int (length line) + 1) (Suc chunk_idx)))
        = concat (map (\<lambda>c. split_lines (fst c))
            (chunks @ [(join_lines current_chunk, suffix_indexed base_id chunk_idx)])) @ [line] @ lines"
      using Cons.prems by (intro Cons.IH) auto
    moreover have "split_lines (join_lines current_chunk) = current_chunk"
      using True Cons.prems by (intro split_join_lines) auto
    ultimately show ?thesis using True by (simp add: splitter_loop_flush del: splitter_loop.simps)
  next
    case False
    have "concat (map (\<lambda>c. split_lines (fst c))
            (splitter_loop base_id limit lines chunks (current_chunk @ [line])
               (current_len + (int (length line) + 1)) chunk_idx))
        = concat (map (\<lambda>c. split_lines (fst c)) chunks) @ (current_chunk @ [line]) @ lines"
      using Cons.prems by (intro Cons.IH) auto
    then show ?thesis using False by (simp add: splitter_loop_keep del: splitter_loop.simps)
  qed
qed

lemma text_splitter_lines:
  "concat (map (\<lambda>c. split_lines (fst c)) (text_splitter text base_id limit)) = split_lines text"
proof (cases "int (length text) \<le> limit")
  case True
  then show ?thesis by (simp add: text_splitter_def)
next
  case False
  have "concat (map (\<lambda>c. split_lines (fst c)) (splitter_loop base_id limit (split_lines text) [] [] 0 0))
      = split_lines text"
    using splitter_loop_lines [of "[]" "split_lines text" base_id limit "[]" 0 0]
    by (auto dest: split_lines_no_newline)
  with False show ?thesis by (simp add: text_splitter_def)
qed

text \<open>
  C6. Whatever the segment and the limit, the chunks \<open>_text_splitter\<close> produces for it
  carry the lines of the segment, each line once, whole and in order: the lines of the
  chunks, one chunk after the other, are the lines of the segment, and joining the chunk
  texts by newlines gives the segment back. (Chunks that are empty after sanitization are
  dropped later, by the indexing loop, not by the chunker.)
\<close>

theorem chunks_reproduce_segment:
  "concat (map (\<lambda>c. split_lines (fst c)) (text_splitter text base_id limit)) = split_lines text
   \<and> join_lines (map fst (text_splitter text base_id limit)) = text"
proof
  show l: "concat (map (\<lambda>c. split_lines (fst c)) (text_splitter text base_id limit)) = split_lines text"
    by (rule text_splitter_lines)
  have "join_lines (map fst (text_splitter text base_id limit))
      = join_lines (map (\<lambda>c. join_lines (split_lines c)) (map fst (text_splitter text base_id limit)))"
    by simp
  also have "\<dots> = join_lines (concat (map split_lines (map fst (text_splitter text base_id limit))))"
    by (rule join_lines_pieces)
  also have "\<dots> = join_lines (split_lines text)"
    using l by (simp add: comp_def)
  finally show "join_lines (map fst (text_splitter text base_id limit)) = text" by simp
qed


lemma length_join_lines:
  "g \<noteq> [] \<Longrightarrow> int (length (join_lines g)) = (\<Sum>l\<leftarrow>g. int (length l) + 1) - 1"
  by (induction g rule: join_lines.induct) auto

lemma join_lines_single_or_short:
  assumes len: "2 \<le> length g \<longrightarrow> (\<Sum>l\<leftarrow>g. int (length l) + 1) \<le> limit"
    and ne: "g \<noteq> []"
  shows "int (length (join_lines g)) + 1 \<le> limit \<or> join_lines g \<in> set g"
proof (cases "2 \<le> length g")
  case True
  with len length_join_lines [OF ne] show ?thesis by simp
next
  case False
  with ne obtain l where "g = [l]"
    by (cases g) (auto simp: Suc_le_eq)
  then show ?thesis by simp
qed

lemma splitter_loop_bound:
  assumes "set (current_chunk @ lines) \<subseteq> L"
    and "\<And>c s. (c, s) \<in> set chunks \<Longrightarrow> int (length c) + 1 \<le> limit \<or> c \<in> L"
    and "current_len = (\<Sum>l\<leftarrow>current_chunk. int (length l) + 1)"
    and "2 \<le> length current_chunk \<longrightarrow> current_len \<le> limit"
    and "(c, s) \<in> set (splitter_loop base_id limit lines chunks current_chunk current_len chunk_idx)"
  shows "int (length c) + 1 \<le> limit \<or> c \<in> L"
  using assms
proof (induction lines arbitrary: chunks current_chunk current_len chunk_idx)
  case Nil
  show ?case
  proof (cases "current_chunk = []")
    case True
    with Nil show ?thesis by auto
  next
    case False
    have "int (length (join_lines current_chunk)) + 1 \<le> limit \<or> join_lines current_chunk \<in> set current_chunk"
      using Nil.prems(3,4) False by (intro join_lines_single_or_short) auto
    with Nil.prems(1,2,5) False show ?thesis by auto
  qed
next
  case (Cons line lines)
  show ?case
  proof (cases "current_len + (int (length line) + 1) > limit \<and> current_chunk \<noteq> []")
    case True
    have "int (length (join_lines current_chunk)) + 1 \<le> limit \<or> join_lines current_chunk \<in> set current_chunk"
      using Cons.prems(3,4) True by (intro join_lines_single_or_short) auto
    with Cons.prems(1)
    have flushed: "int (length (join_lines current_chunk)) + 1 \<le> limit \<or> join_lines current_chunk \<in> L"
      by auto
    have mem: "(c, s) \<in> set (splitter_loop base_id limit lines
         (chunks @ [(join_lines current_chunk, suffix_indexed base_id chunk_idx)])
         [line] (int (length line) + 1) (Suc chunk_idx))"
      using Cons.prems(5) True by (simp add: splitter_loop_flush del: splitter_loop.simps)
    show ?thesis
    proof (rule Cons.IH [OF _ _ _ _ mem])
      show "set ([line] @ lines) \<subseteq> L"
        using Cons.prems(1) by auto
      show "int (length c') + 1 \<le> limit \<or> c' \<in> L"
        if "(c', s') \<in> set (chunks @ [(join_lines current_chunk, suffix_indexed base_id chunk_idx)])" for c' s'
        using that Cons.prems(2) flushed by auto
      show "int (length line) + 1 = (\<Sum>l\<leftarrow>[line]. int (length l) + 1)" by simp
      show "2 \<le> length [line] \<longrightarrow> int (length line) + 1 \<le> limit" by simp
    qed
  next
    case False
    have mem: "(c, s) \<in> set (splitter_loop base_id limit lines chunks (current_chunk @ [line])
         (current_len + (int (length line) + 1)) chunk_idx)"
      using Cons.prems(5) False by (simp add: splitter_loop_keep del: splitter_loop.simps)
    show ?thesis
    proof (rule Cons.IH [OF _ _ _ _ mem])
      show "set ((current_chunk @ [line]) @ lines) \<subseteq> L"
        using Cons.prems(1) by auto
      show "int (length c') + 1 \<le> limit \<or> c' \<in> L" if "(c', s') \<in> set chunks" for c' s'
        using that Cons.prems(2) by auto
      show "current_len + (int (length line) + 1) = (\<Sum>l\<leftarrow>current_chunk @ [line]. int (length l) + 1)"
        using Cons.prems(3) by simp
      show "2 \<le> length (current_chunk @ [line]) \<longrightarrow> current_len + (int (length line) + 1) \<le> limit"
        using False by (cases current_chunk) auto
    qed
  qed
qed

lemma text_splitter_bound_split:
  assumes "(c, s) \<in> set (text_splitter text base_id limit)" and "\<not> int (length text) \<le> limit"
  shows "int (length c) + 1 \<le> limit \<or> c \<in> set (split_lines text)"
proof -
  from assms have mem: "(c, s) \<in> set (splitter_loop base_id limit (split_lines text) [] [] 0 0)"
    by (simp add: text_splitter_def)
  show ?thesis
    by (rule splitter_loop_bound [OF _ _ _ _ mem]) auto
qed

lemma text_splitter_bound:
  assumes "(c, s) \<in> set (text_splitter text base_id limit)"
  shows "int (length c) \<le> limit \<or> c \<in> set (split_lines text)"
proof (cases "int (length text) \<le> limit")
  case True
  with assms show ?thesis by (simp add: text_splitter_def)
next
  case False
  from text_splitter_bound_split [OF assms False] show ?thesis by auto
qed

lemma splitter_loop_greedy:
  assumes "\<And>l. l \<in> set (current_chunk @ lines) \<Longrightarrow> CHR 0x0A \<notin> set l"
    and "successively (next_line_overflows limit) (map fst chunks)"
    and "current_len = (\<Sum>l\<leftarrow>current_chunk. int (length l) + 1)"
    and "chunks \<noteq> [] \<longrightarrow> current_chunk \<noteq> [] \<and>
           limit < int (length (fst (last chunks))) + 1 + (int (length (hd current_chunk)) + 1)"
  shows "successively (next_line_overflows limit)
           (map fst (splitter_loop base_id limit lines chunks current_chunk current_len chunk_idx))"
  using assms
proof (induction lines arbitrary: chunks current_chunk current_len chunk_idx)
  case Nil
  show ?case
  proof (cases "current_chunk = []")
    case True
    with Nil.prems(2) show ?thesis by simp
  next
    case False
    have sj: "split_lines (join_lines current_chunk) = current_chunk"
      using False Nil.prems(1) by (intro split_join_lines) auto
    have "chunks = [] \<or> next_line_overflows limit (last (map fst chunks)) (join_lines current_chunk)"
    proof (cases "chunks = []")
      case True
      then show ?thesis by simp
    next
      case ne: False
      with Nil.prems(4) show ?thesis by (simp add: next_line_overflows_def sj last_map)
    qed
    with Nil.prems(2) False show ?thesis
      by (auto simp: successively_append_iff)
  qed
next
  case (Cons line lines)
  show ?case
  proof (cases "current_len + (int (length line) + 1) > limit \<and> current_chunk \<noteq> []")
    case True
    have sj: "split_lines (join_lines current_chunk) = current_chunk"
      using True Cons.prems(1) by (intro split_join_lines) auto
    have lj: "int (length (join_lines current_chunk)) + 1 = current_len"
      using True Cons.prems(3) length_join_lines [of current_chunk] by simp
    have "chunks = [] \<or> next_line_overflows limit (last (map fst chunks)) (join_lines current_chunk)"
    proof (cases "chunks = []")
      case True
      then show ?thesis by simp
    next
      case ne: False
      with Cons.prems(4) show ?thesis by (simp add: next_line_overflows_def sj last_map)
    qed
    with Cons.prems(2)
    have s1: "successively (next_line_overflows limit)
        (map fst (chunks @ [(join_lines current_chunk, suffix_indexed base_id chunk_idx)]))"
      by (auto simp: successively_append_iff)
    have "successively (next_line_overflows limit)
           (map fst (splitter_loop base_id limit lines
              (chunks @ [(join_lines current_chunk, suffix_indexed base_id chunk_idx)])
              [line] (int (length line) + 1) (Suc chunk_idx)))"
    proof (rule Cons.IH [OF _ s1])
      show "CHR 0x0A \<notin> set l" if "l \<in> set ([line] @ lines)" for l
        using that Cons.prems(1) by auto
      show "int (length line) + 1 = (\<Sum>l\<leftarrow>[line]. int (length l) + 1)" by simp
      show "chunks @ [(join_lines current_chunk, suffix_indexed base_id chunk_idx)] \<noteq> [] \<longrightarrow>
          [line] \<noteq> [] \<and>
          limit < int (length (fst (last (chunks @ [(join_lines current_chunk, suffix_indexed base_id chunk_idx)]))))
                  + 1 + (int (length (hd [line])) + 1)"
        using True lj by simp
    qed
    then show ?thesis
      using True by (simp add: splitter_loop_flush del: splitter_loop.simps)
  next
    case False
    have "successively (next_line_overflows limit)
           (map fst (splitter_loop base_id limit lines chunks (current_chunk @ [line])
              (current_len + (int (length line) + 1)) chunk_idx))"
    proof (rule Cons.IH [OF _ Cons.prems(2)])
      show "CHR 0x0A \<notin> set l" if "l \<in> set ((current_chunk @ [line]) @ lines)" for l
        using that Cons.prems(1) by auto
      show "current_len + (int (length line) + 1) = (\<Sum>l\<leftarrow>current_chunk @ [line]. int (length l) + 1)"
        using Cons.prems(3) by simp
      show "chunks \<noteq> [] \<longrightarrow> current_chunk @ [line] \<noteq> [] \<and>
          limit < int (length (fst (last chunks))) + 1 + (int (length (hd (current_chunk @ [line]))) + 1)"
        using Cons.prems(4) by auto
    qed
    then show ?thesis
      using False by (simp add: splitter_loop_keep del: splitter_loop.simps)
  qed
qed

lemma text_splitter_greedy:
  "successively (next_line_overflows limit) (map fst (text_splitter text base_id limit))"
proof (cases "int (length text) \<le> limit")
  case True
  then show ?thesis by (simp add: text_splitter_def)
next
  case False
  have "successively (next_line_overflows limit)
          (map fst (splitter_loop base_id limit (split_lines text) [] [] 0 0))"
    by (rule splitter_loop_greedy) (auto dest: split_lines_no_newline)
  with False show ?thesis by (simp add: text_splitter_def)
qed

lemma parts_loop_origin:
  assumes "(c, s) \<in> set (parts_loop limit parts current_header chunks)"
  shows "(c, s) \<in> set chunks \<or>
         (\<exists>part hdr. part \<in> set parts \<and> (c, s) \<in> set (text_splitter (strip part) hdr limit))"
  using assms
proof (induction parts arbitrary: current_header chunks)
  case Nil
  then show ?case by simp
next
  case (Cons part0 parts)
  show ?case
  proof (cases "strip part0 = [] \<or> prefix ''--- FILE:'' (strip part0)")
    case True
    with Cons.prems obtain h where "(c, s) \<in> set (parts_loop limit parts h chunks)"
      by (auto simp: Let_def split: if_splits)
    from Cons.IH [OF this] show ?thesis by auto
  next
    case False
    with Cons.prems have "(c, s) \<in> set (parts_loop limit parts current_header
        (chunks @ text_splitter (strip part0) current_header limit))"
      by (auto simp: Let_def split: if_splits)
    from Cons.IH [OF this] show ?thesis by auto
  qed
qed

lemma smart_chunk_origin:
  assumes "(c, s) \<in> set (smart_chunk raw_text limit)"
  shows "\<exists>seg hdr. (seg = raw_text \<or> seg \<in> strip ` set (re_split_markers (split_lines raw_text) []))
           \<and> (c, s) \<in> set (text_splitter seg hdr limit)"
proof (cases "length (re_split_markers (split_lines raw_text) []) > 1")
  case True
  with assms have "(c, s) \<in> set (parts_loop limit (re_split_markers (split_lines raw_text) []) ''preamble'' [])"
    by (simp add: smart_chunk_def Let_def)
  from parts_loop_origin [OF this] show ?thesis by auto
next
  case False
  with assms have "(c, s) \<in> set (text_splitter raw_text ''main'' limit)"
    by (simp add: smart_chunk_def Let_def)
  then show ?thesis by blast
qed

subsection \<open>The claim about the size of the chunks\<close>

text \<open>
  C7, as amended. A chunk is not always within the limit: lines are never cut, so a line
  longer than the limit is emitted whole, as a chunk of its own. What holds: a segment
  within the limit is emitted unchanged, as the only chunk; an over-limit segment is split
  line by line (the lines of its chunks, in order, are its lines); the running chunk
  takes lines as long as the count of the loop (each line with one more for its newline)
  stays within the limit, so that a chunk either fits, newline counted, or is one whole
  line of the segment; and the running chunk is flushed only when the next line would
  take the count over the limit. Every chunk of \<open>smart_chunk\<close> is a chunk
  \<open>_text_splitter\<close> makes of the raw text or of a stripped part of the delimiter split.
\<close>

theorem chunk_bound_and_flush_rule:
  "((c, s) \<in> set (text_splitter text base_id limit) \<longrightarrow>
      int (length c) \<le> limit \<or> c \<in> set (split_lines text))
   \<and> (int (length seg) \<le> limit \<longrightarrow>
      text_splitter seg base_id limit = [(seg, suffix_plain base_id)])
   \<and> (\<not> int (length text) \<le> limit \<and> (c, s) \<in> set (text_splitter text base_id limit) \<longrightarrow>
      int (length c) + 1 \<le> limit \<or> c \<in> set (split_lines text))
   \<and> concat (map (\<lambda>c. split_lines (fst c)) (text_splitter text base_id limit)) = split_lines text
   \<and> successively (next_line_overflows limit) (map fst (text_splitter text base_id limit))
   \<and> ((c', s') \<in> set (smart_chunk raw_text limit) \<longrightarrow>
      (\<exists>seg hdr. (seg = raw_text \<or> seg \<in> strip ` set (re_split_markers (split_lines raw_text) []))
         \<and> (c', s') \<in> set (text_splitter seg hdr limit)))"
  using text_splitter_bound [of c s "text" base_id limit]
    text_splitter_bound_split [of c s "text" base_id limit]
    text_splitter_lines [of "text" base_id limit]
    text_splitter_greedy [of limit "text" base_id]
    smart_chunk_origin [of c' s' raw_text limit]
  by (simp add: text_splitter_def)

theorem chunk_bound_and_flush_rule_witness:
  "(''ab\<newline>cd'', ''::main[0]'') \<in> set (text_splitter ''ab\<newline>cd\<newline>efgh\<newline>i'' ''main'' 6)
   \<and> int (length ''abc'') \<le> 6
   \<and> \<not> int (length ''ab\<newline>cd\<newline>efgh\<newline>i'') \<le> 6
   \<and> (''efgh'', ''::x[1]'') \<in> set (smart_chunk ''--- FILE: x ---\<newline>ab\<newline>cd\<newline>efgh\<newline>i'' 6)
   \<and> (int (length ''ab\<newline>cd'') + 1 \<le> 6 \<or> ''ab\<newline>cd'' \<in> set (split_lines ''ab\<newline>cd\<newline>efgh\<newline>i''))
   \<and> text_splitter ''abc'' ''main'' 6 = [(''abc'', suffix_plain ''main'')]
   \<and> successively (next_line_overflows 6)
         (map fst (text_splitter ''ab\<newline>cd\<newline>efgh\<newline>i'' ''main'' 6))
   \<and> (\<exists>seg hdr.
         (seg = ''--- FILE: x ---\<newline>ab\<newline>cd\<newline>efgh\<newline>i''
          \<or> seg \<in> strip ` set (re_split_markers
                 (split_lines ''--- FILE: x ---\<newline>ab\<newline>cd\<newline>efgh\<newline>i'') []))
         \<and> (''efgh'', ''::x[1]'') \<in> set (text_splitter seg hdr 6))"
proof -
  have m1: "(''ab\<newline>cd'', ''::main[0]'') \<in> set (text_splitter ''ab\<newline>cd\<newline>efgh\<newline>i'' ''main'' 6)"
    by code_simp
  have m2: "(''efgh'', ''::x[1]'') \<in> set (smart_chunk ''--- FILE: x ---\<newline>ab\<newline>cd\<newline>efgh\<newline>i'' 6)"
    by code_simp
  have m3: "int (length ''abc'') \<le> 6" by simp
  have m4: "\<not> int (length ''ab\<newline>cd\<newline>efgh\<newline>i'') \<le> 6" by simp
  from chunk_bound_and_flush_rule [of "''ab\<newline>cd''" "''::main[0]''"
        "''ab\<newline>cd\<newline>efgh\<newline>i''" "''main''" 6 "''abc''" "''efgh''" "''::x[1]''"
        "''--- FILE: x ---\<newline>ab\<newline>cd\<newline>efgh\<newline>i''"] m1 m2 m3 m4
  show ?thesis by blast
qed

text \<open>
  C7 as stated fails: a text of one line of ten characters, chunked with the limit 5, gives
  one chunk of ten characters.
\<close>

theorem chunk_limit_counterexample:
  "smart_chunk ''aaaaaaaaaa'' 5 = [(''aaaaaaaaaa'', ''::main[0]'')]
   \<and> \<not> int (length ''aaaaaaaaaa'') \<le> 5"
  by code_simp

subsection \<open>Properties of the indexing run\<close>

lemma set_as_completed [simp]: "set (as_completed xs choices) = set xs"
proof (induction choices arbitrary: xs)
  case Nil
  show ?case by (cases xs) auto
next
  case (Cons c choices)
  show ?case
  proof (cases xs)
    case Nil
    then show ?thesis by simp
  next
    case (Cons y ys)
    let ?i = "c mod length (y # ys)"
    have i: "?i < length (y # ys)" by simp
    have "set (y # ys) = set (take ?i (y # ys) @ (y # ys) ! ?i # drop (Suc ?i) (y # ys))"
      using id_take_nth_drop [OF i] by simp
    then have "insert ((y # ys) ! ?i) (set (take ?i (y # ys) @ drop (Suc ?i) (y # ys))) = set (y # ys)"
      by auto
    with Cons Cons.IH [of "take ?i (y # ys) @ drop (Suc ?i) (y # ys)"] show ?thesis
      by (simp add: Let_def del: drop_Suc_Cons)
  qed
qed

lemma merge_results_append:
  "merge_results (rs @ rs') st = merge_results rs' (merge_results rs st)"
  by (induction rs st rule: merge_results.induct) auto

lemma merge_results_fields [simp]:
  "dimension (merge_results rs st) = dimension st"
  "index_file (merge_results rs st) = index_file st"
  by (induction rs st rule: merge_results.induct) auto


lemma merge_results_origin:
  "map_of (index (merge_results rs st)) k = Some e \<Longrightarrow>
   map_of (index st) k = Some e \<or>
   (\<exists>vec h snip. (k, vec, h, snip) \<in> set rs \<and> e = \<lparr>vector = vec, hash = h, snippet = snip\<rparr>)"
proof (induction rs st rule: merge_results.induct)
  case (1 st)
  then show ?case by simp
next
  case (2 path vec txt_hash snip results st)
  from "2.prems" have "map_of (index (merge_results results
        (st\<lparr>index := AList.update path \<lparr>vector = vec, hash = txt_hash, snippet = snip\<rparr> (index st),
            unsaved_changes := unsaved_changes st + 1,
            matrix_cache := None, paths_cache := None\<rparr>))) k = Some e" by simp
  from "2.IH" [OF this] show ?case
    by (auto simp: update_conv' split: if_splits)
qed


lemma merge_results_index_fold:
  "index (merge_results rs st)
     = fold (\<lambda>(p, v, h, s). AList.update p \<lparr>vector = v, hash = h, snippet = s\<rparr>) rs (index st)"
  by (induction rs st rule: merge_results.induct) auto

lemma merge_results_index_cong:
  "index st = index st' \<Longrightarrow> index (merge_results rs st) = index (merge_results rs st')"
  by (simp add: merge_results_index_fold)

lemma save_index_keeps [simp]:
  "index (fst (save_index f st d)) = index st"
  "dimension (fst (save_index f st d)) = dimension st"
  by (auto simp: save_index_def Let_def split: option.splits)

lemma merge_loop_prefix:
  "\<exists>ps. prefix ps rs \<and> fst (merge_loop enc rs st) = merge_results ps st
        \<and> (\<not> snd (merge_loop enc rs st) \<longrightarrow> ps = rs)"
proof (induction rs arbitrary: st)
  case Nil
  show ?case by simp
next
  case (Cons r rs)
  obtain path vec h snip where r: "r = (path, vec, h, snip)" by (cases r) auto
  let ?st1 = "st\<lparr>index := AList.update path \<lparr>vector = vec, hash = h, snippet = snip\<rparr> (index st),
                  unsaved_changes := unsaved_changes st + 1,
                  matrix_cache := None, paths_cache := None\<rparr>"
  show ?case
  proof (cases "enc (indexed_line path)")
    case True
    from Cons.IH [of ?st1] obtain ps where ps: "prefix ps rs"
      "fst (merge_loop enc rs ?st1) = merge_results ps ?st1"
      "\<not> snd (merge_loop enc rs ?st1) \<longrightarrow> ps = rs" by blast
    have "prefix (r # ps) (r # rs)" using ps(1) by simp
    moreover have "fst (merge_loop enc (r # rs) st) = merge_results (r # ps) st"
      using True ps(2) by (simp add: r Let_def)
    moreover have "\<not> snd (merge_loop enc (r # rs) st) \<longrightarrow> r # ps = r # rs"
      using True ps(3) by (simp add: r Let_def)
    ultimately show ?thesis by blast
  next
    case False
    have "prefix [r] (r # rs)" by simp
    moreover have "fst (merge_loop enc (r # rs) st) = merge_results [r] st"
      using False by (simp add: r Let_def)
    moreover have "snd (merge_loop enc (r # rs) st)"
      using False by (simp add: r Let_def)
    ultimately show ?thesis by blast
  qed
qed

lemma merge_loop_no_raise:
  "(\<And>s. enc s) \<Longrightarrow> merge_loop enc rs st = (merge_results rs st, False)"
  by (induction rs st rule: merge_results.induct) (simp_all add: Let_def)

lemma completed_loop_state:
  "\<exists>ps. prefix ps (concat (map (embed_batch_worker dg em (dimension st)) bs))
      \<and> index (fst (completed_loop enc dg em bs (st, d, fs))) = index (merge_results ps st)
      \<and> dimension (fst (completed_loop enc dg em bs (st, d, fs))) = dimension st
      \<and> (\<not> snd (snd (snd (completed_loop enc dg em bs (st, d, fs))))
           \<longrightarrow> ps = concat (map (embed_batch_worker dg em (dimension st)) bs))"
proof (induction bs arbitrary: st d fs)
  case Nil
  show ?case by simp
next
  case (Cons b bs)
  let ?res = "embed_batch_worker dg em (dimension st) b"
  let ?rest = "concat (map (embed_batch_worker dg em (dimension st)) bs)"
  show ?case
  proof (cases "?res = []")
    case True
    then have step: "completed_loop enc dg em (b # bs) (st, d, fs) = completed_loop enc dg em bs (st, d, fs)"
      by (simp add: Let_def)
    from Cons.IH [of st d fs] True show ?thesis unfolding step by simp
  next
    case False
    obtain st1 r where ml: "merge_loop enc ?res st = (st1, r)"
      by (cases "merge_loop enc ?res st") auto
    from merge_loop_prefix [of ?res enc st] ml obtain ps1 where
      ps1: "prefix ps1 ?res" "st1 = merge_results ps1 st" "\<not> r \<longrightarrow> ps1 = ?res" by auto
    have dm1: "dimension st1 = dimension st" using ps1(2) by simp
    show ?thesis
    proof (cases r)
      case True
      have step: "completed_loop enc dg em (b # bs) (st, d, fs) = (st1, d, fs, True)"
        using False ml True by (simp add: Let_def)
      have "prefix ps1 (?res @ ?rest)" using ps1(1) by (rule prefix_prefix)
      with ps1(2) dm1 show ?thesis unfolding step by auto
    next
      case nr: False
      with ps1 have st1: "st1 = merge_results ?res st" by simp
      show ?thesis
      proof (cases "unsaved_changes st1 \<ge> SAVE_INTERVAL")
        case True
        obtain st2 d2 where sv: "save_index (next_fault fs) st1 d = (st2, d2)"
          by (cases "save_index (next_fault fs) st1 d") auto
        have ix: "index st2 = index st1" and dm: "dimension st2 = dimension st"
          using save_index_keeps [of "next_fault fs" st1 d] sv dm1 by auto
        have step: "completed_loop enc dg em (b # bs) (st, d, fs)
            = completed_loop enc dg em bs (st2, d2, drop 1 fs)"
          using False ml nr True sv by (simp add: Let_def)
        from Cons.IH [of st2 d2 "drop 1 fs"] obtain ps where
          ps: "prefix ps ?rest"
            "index (fst (completed_loop enc dg em bs (st2, d2, drop 1 fs))) = index (merge_results ps st2)"
            "dimension (fst (completed_loop enc dg em bs (st2, d2, drop 1 fs))) = dimension st"
            "\<not> snd (snd (snd (completed_loop enc dg em bs (st2, d2, drop 1 fs)))) \<longrightarrow> ps = ?rest"
          unfolding dm by blast
        have "index (merge_results ps st2) = index (merge_results (?res @ ps) st)"
          using merge_results_index_cong [OF ix, of ps] by (simp add: merge_results_append st1)
        moreover have "prefix (?res @ ps) (?res @ ?rest)" using ps(1) by simp
        ultimately show ?thesis using ps(2,3,4) unfolding step
          by (intro exI [of _ "?res @ ps"]) simp
      next
        case nosave: False
        have step: "completed_loop enc dg em (b # bs) (st, d, fs) = completed_loop enc dg em bs (st1, d, fs)"
          using False ml nr nosave by (simp add: Let_def)
        from Cons.IH [of st1 d fs] obtain ps where
          ps: "prefix ps ?rest"
            "index (fst (completed_loop enc dg em bs (st1, d, fs))) = index (merge_results ps st1)"
            "dimension (fst (completed_loop enc dg em bs (st1, d, fs))) = dimension st"
            "\<not> snd (snd (snd (completed_loop enc dg em bs (st1, d, fs)))) \<longrightarrow> ps = ?rest"
          unfolding dm1 by blast
        have "index (merge_results ps st1) = index (merge_results (?res @ ps) st)"
          by (simp add: merge_results_append st1)
        moreover have "prefix (?res @ ps) (?res @ ?rest)" using ps(1) by simp
        ultimately show ?thesis using ps(2,3,4) unfolding step
          by (intro exI [of _ "?res @ ps"]) simp
      qed
    qed
  qed
qed

lemma completed_loop_no_raise:
  "(\<And>s. enc s) \<Longrightarrow> \<not> snd (snd (snd (completed_loop enc dg em bs (st, d, fs))))"
proof (induction bs arbitrary: st d fs)
  case Nil
  show ?case by simp
next
  case (Cons b bs)
  from Cons.prems have ml: "\<And>rs st. merge_loop enc rs st = (merge_results rs st, False)"
    by (rule merge_loop_no_raise)
  show ?case
    using Cons.IH [OF Cons.prems] by (simp add: Let_def ml split: prod.splits)
qed

lemma run_indexing_state:
  "\<exists>ps. prefix ps (concat (map (embed_batch_worker dg em (dimension st))
            (as_completed (prepare_tasks dg rf st (if limit > 0 then take (nat limit) files else files))
               choices)))
      \<and> index (state_after (run_indexing enc dg em rf choices faults files limit st d))
          = index (merge_results ps st)
      \<and> (\<not> raised (run_indexing enc dg em rf choices faults files limit st d)
           \<longrightarrow> ps = concat (map (embed_batch_worker dg em (dimension st))
            (as_completed (prepare_tasks dg rf st (if limit > 0 then take (nat limit) files else files))
               choices)))"
  and run_indexing_dimension:
  "dimension (state_after (run_indexing enc dg em rf choices faults files limit st d)) = dimension st"
proof -
  let ?files = "if limit > 0 then take (nat limit) files else files"
  let ?tasks = "prepare_tasks dg rf st ?files"
  let ?R = "concat (map (embed_batch_worker dg em (dimension st)) (as_completed ?tasks choices))"
  let ?run = "run_indexing enc dg em rf choices faults files limit st d"
  have "(\<exists>ps. prefix ps ?R \<and> index (state_after ?run) = index (merge_results ps st)
           \<and> (\<not> raised ?run \<longrightarrow> ps = ?R))
        \<and> dimension (state_after ?run) = dimension st"
  proof (cases "read_warning_raises enc ?files")
    case True
    then have "state_after ?run = st" "raised ?run"
      by (simp_all add: run_indexing_def Let_def)
    then show ?thesis by (auto intro: exI [of _ "[]"])
  next
    case nw: False
    show ?thesis
    proof (cases "?tasks = []")
      case True
      with nw have "state_after ?run = st" by (simp add: run_indexing_def Let_def)
      moreover from True have "?R = []" by simp
      ultimately show ?thesis by (auto intro: exI [of _ "[]"])
    next
      case False
      obtain st1 d1 f1 r where
        cl: "completed_loop enc dg em (as_completed ?tasks choices) (st, d, faults) = (st1, d1, f1, r)"
        by (cases "completed_loop enc dg em (as_completed ?tasks choices) (st, d, faults)") auto
      obtain st2 d2 where sv: "save_index (next_fault f1) st1 d1 = (st2, d2)"
        by (cases "save_index (next_fault f1) st1 d1") auto
      have raised: "raised ?run = r"
        using nw False cl sv by (cases r) (simp_all add: run_indexing_def Let_def)
      have "state_after ?run = (if r then st1 else st2)"
        using nw False cl sv by (cases r) (simp_all add: run_indexing_def Let_def)
      moreover have "index st2 = index st1" "dimension st2 = dimension st1"
        using save_index_keeps [of "next_fault f1" st1 d1] sv by auto
      ultimately have sa: "index (state_after ?run) = index st1"
        "dimension (state_after ?run) = dimension st1" by simp_all
      from completed_loop_state [of dg em st "as_completed ?tasks choices" enc d faults] cl
      obtain ps where "prefix ps ?R" "index st1 = index (merge_results ps st)"
        "dimension st1 = dimension st" "\<not> r \<longrightarrow> ps = ?R" by auto
      with sa raised show ?thesis by auto
    qed
  qed
  then show "\<exists>ps. prefix ps ?R \<and> index (state_after ?run) = index (merge_results ps st)
           \<and> (\<not> raised ?run \<longrightarrow> ps = ?R)"
    and "dimension (state_after ?run) = dimension st" by blast+
qed

lemma run_indexing_no_raise:
  assumes "\<And>s. enc s"
  shows "\<not> raised (run_indexing enc dg em rf choices faults files limit st d)"
proof -
  let ?files = "if limit > 0 then take (nat limit) files else files"
  let ?tasks = "prepare_tasks dg rf st ?files"
  have nw: "\<not> read_warning_raises enc ?files"
    using assms by (simp add: read_warning_raises_def list_ex_iff)
  obtain st1 d1 f1 r where
    cl: "completed_loop enc dg em (as_completed ?tasks choices) (st, d, faults) = (st1, d1, f1, r)"
    by (cases "completed_loop enc dg em (as_completed ?tasks choices) (st, d, faults)") auto
  with completed_loop_no_raise [of enc dg em "as_completed ?tasks choices" st d faults, OF assms]
  have r: "\<not> r" by simp
  show ?thesis
    using nw cl r by (simp add: run_indexing_def Let_def split: prod.splits)
qed

lemma worker_origin:
  assumes "(p, v, h, s) \<in> set (embed_batch_worker dg em D batch)"
  shows "\<exists>t. (p, t) \<in> set batch \<and> h = dg t \<and> s = take 200 t"
proof -
  from assms obtain vs t where
    z: "(p, v, t) \<in> set (zip (map fst batch) (zip vs (map snd batch)))"
    and h: "h = dg t" "s = take 200 t"
    by (auto simp: embed_batch_worker_def Let_def split: option.splits if_splits)
  from z obtain i where i: "i < length batch" "i < length vs"
      "p = map fst batch ! i" "t = map snd batch ! i"
    by (auto simp: set_zip)
  then have "(p, t) = batch ! i" by (simp add: prod_eq_iff)
  with i(1) have "(p, t) \<in> set batch" by (metis nth_mem)
  with h show ?thesis by blast
qed


lemma chunk_loop_skip:
  "sanitize_content ct = [] \<or> up_to_date st (fp @ sfx) (dg (sanitize_content ct)) \<Longrightarrow>
   chunk_loop dg st fp ((ct, sfx) # chunks) (tasks, cur) = chunk_loop dg st fp chunks (tasks, cur)"
  by (auto simp: Let_def)

lemma chunk_loop_full:
  "\<not> (sanitize_content ct = [] \<or> up_to_date st (fp @ sfx) (dg (sanitize_content ct))) \<Longrightarrow>
   length (cur @ [(fp @ sfx, sanitize_content ct)]) \<ge> BATCH_SIZE \<Longrightarrow>
   chunk_loop dg st fp ((ct, sfx) # chunks) (tasks, cur)
     = chunk_loop dg st fp chunks (tasks @ [cur @ [(fp @ sfx, sanitize_content ct)]], [])"
  by (auto simp: Let_def)

lemma chunk_loop_more:
  "\<not> (sanitize_content ct = [] \<or> up_to_date st (fp @ sfx) (dg (sanitize_content ct))) \<Longrightarrow>
   \<not> length (cur @ [(fp @ sfx, sanitize_content ct)]) \<ge> BATCH_SIZE \<Longrightarrow>
   chunk_loop dg st fp ((ct, sfx) # chunks) (tasks, cur)
     = chunk_loop dg st fp chunks (tasks, cur @ [(fp @ sfx, sanitize_content ct)])"
  by (auto simp: Let_def)

lemma chunk_loop_pending:
  assumes "chunk_loop dg st fp chunks (tasks, cur) = (tasks', cur')"
  shows "concat tasks' @ cur'
     = concat tasks @ cur @
       filter (\<lambda>(k, t). \<not> up_to_date st k (dg t))
         (filter (\<lambda>(k, t). t \<noteq> [])
            (map (\<lambda>(ct, sfx). (fp @ sfx, sanitize_content ct)) chunks))"
    and "(\<forall>b\<in>set tasks. b \<noteq> []) \<longrightarrow> (\<forall>b\<in>set tasks'. b \<noteq> [])"
  using assms
proof (induction chunks arbitrary: tasks cur)
  case Nil
  { case 1 then show ?case by simp }
  { case 2 then show ?case by simp }
next
  case (Cons c chunks)
  obtain ct sfx where c: "c = (ct, sfx)" by (cases c) auto
  let ?clean = "sanitize_content ct"
  let ?x = "(fp @ sfx, ?clean)"
  let ?skip = "?clean = [] \<or> up_to_date st (fp @ sfx) (dg ?clean)"
  { case 1
    let ?full = "length (cur @ [?x]) \<ge> BATCH_SIZE"
    show ?case
    proof (cases ?skip)
      case True
      have "chunk_loop dg st fp (c # chunks) (tasks, cur) = chunk_loop dg st fp chunks (tasks, cur)"
        unfolding c using True by (simp only: chunk_loop_skip)
      with 1 have "chunk_loop dg st fp chunks (tasks, cur) = (tasks', cur')" by simp
      from Cons.IH(1) [OF this] True c show ?thesis by auto
    next
      case False
      show ?thesis
      proof (cases ?full)
        case True
        have "chunk_loop dg st fp (c # chunks) (tasks, cur)
            = chunk_loop dg st fp chunks (tasks @ [cur @ [?x]], [])"
          unfolding c using False True by (rule chunk_loop_full)
        with 1 have "chunk_loop dg st fp chunks (tasks @ [cur @ [?x]], []) = (tasks', cur')" by simp
        from Cons.IH(1) [OF this] False c show ?thesis by auto
      next
        case nf: False
        have "chunk_loop dg st fp (c # chunks) (tasks, cur)
            = chunk_loop dg st fp chunks (tasks, cur @ [?x])"
          unfolding c using False nf by (rule chunk_loop_more)
        with 1 have "chunk_loop dg st fp chunks (tasks, cur @ [?x]) = (tasks', cur')" by simp
        from Cons.IH(1) [OF this] False c show ?thesis by auto
      qed
    qed }
  { case 2
    let ?full = "length (cur @ [?x]) \<ge> BATCH_SIZE"
    show ?case
    proof (cases ?skip)
      case True
      have "chunk_loop dg st fp (c # chunks) (tasks, cur) = chunk_loop dg st fp chunks (tasks, cur)"
        unfolding c using True by (simp only: chunk_loop_skip)
      with 2 have "chunk_loop dg st fp chunks (tasks, cur) = (tasks', cur')" by simp
      from Cons.IH(2) [OF this] show ?thesis .
    next
      case False
      show ?thesis
      proof (cases ?full)
        case True
        have "chunk_loop dg st fp (c # chunks) (tasks, cur)
            = chunk_loop dg st fp chunks (tasks @ [cur @ [?x]], [])"
          unfolding c using False True by (rule chunk_loop_full)
        with 2 have "chunk_loop dg st fp chunks (tasks @ [cur @ [?x]], []) = (tasks', cur')" by simp
        from Cons.IH(2) [OF this] show ?thesis by auto
      next
        case nf: False
        have "chunk_loop dg st fp (c # chunks) (tasks, cur)
            = chunk_loop dg st fp chunks (tasks, cur @ [?x])"
          unfolding c using False nf by (rule chunk_loop_more)
        with 2 have "chunk_loop dg st fp chunks (tasks, cur @ [?x]) = (tasks', cur')" by simp
        from Cons.IH(2) [OF this] show ?thesis .
      qed
    qed }
qed

lemma clean_chunks_Cons_None: "clean_chunks rf ((fp, None) # files) = clean_chunks rf files"
  by (simp add: clean_chunks_def)

lemma clean_chunks_Cons_Some:
  "clean_chunks rf ((fp, Some raw) # files)
     = filter (\<lambda>(k, t). t \<noteq> [])
         (map (\<lambda>(ct, sfx). (fp @ sfx, sanitize_content ct)) (file_chunks_of rf fp raw))
       @ clean_chunks rf files"
  by (simp add: clean_chunks_def)

lemma files_loop_pending:
  assumes "files_loop dg rf st files (tasks, cur) = (tasks', cur')"
  shows "concat tasks' @ cur'
     = concat tasks @ cur @ filter (\<lambda>(k, t). \<not> up_to_date st k (dg t)) (clean_chunks rf files)"
    and "(\<forall>b\<in>set tasks. b \<noteq> []) \<longrightarrow> (\<forall>b\<in>set tasks'. b \<noteq> [])"
  using assms
proof (induction files arbitrary: tasks cur)
  case Nil
  { case 1 then show ?case by (simp add: clean_chunks_def) }
  { case 2 then show ?case by simp }
next
  case (Cons f files)
  obtain fp content where f: "f = (fp, content)" by (cases f) auto
  { case 1
    show ?case
    proof (cases content)
      case None
      with 1 f have "files_loop dg rf st files (tasks, cur) = (tasks', cur')" by simp
      from Cons.IH(1) [OF this] None f show ?thesis by (simp add: clean_chunks_Cons_None)
    next
      case (Some raw)
      obtain t1 c1 where cl: "chunk_loop dg st fp (file_chunks_of rf fp raw) (tasks, cur) = (t1, c1)"
        by (cases "chunk_loop dg st fp (file_chunks_of rf fp raw) (tasks, cur)") auto
      with 1 f Some have "files_loop dg rf st files (t1, c1) = (tasks', cur')" by simp
      from Cons.IH(1) [OF this] chunk_loop_pending(1) [OF cl] Some f
      show ?thesis by (simp add: clean_chunks_Cons_Some)
    qed }
  { case 2
    show ?case
    proof (cases content)
      case None
      with 2 f have "files_loop dg rf st files (tasks, cur) = (tasks', cur')" by simp
      from Cons.IH(2) [OF this] show ?thesis .
    next
      case (Some raw)
      obtain t1 c1 where cl: "chunk_loop dg st fp (file_chunks_of rf fp raw) (tasks, cur) = (t1, c1)"
        by (cases "chunk_loop dg st fp (file_chunks_of rf fp raw) (tasks, cur)") auto
      with 2 f Some have "files_loop dg rf st files (t1, c1) = (tasks', cur')" by simp
      from Cons.IH(2) [OF this] chunk_loop_pending(2) [OF cl]
      show ?thesis by blast
    qed }
qed

lemma prepare_tasks_pending:
  "concat (prepare_tasks dg rf st files)
     = filter (\<lambda>(k, t). \<not> up_to_date st k (dg t)) (clean_chunks rf files)"
  and prepare_tasks_nonempty: "[] \<notin> set (prepare_tasks dg rf st files)"
proof -
  obtain tasks cur where fl: "files_loop dg rf st files ([], []) = (tasks, cur)"
    by (cases "files_loop dg rf st files ([], [])") auto
  from files_loop_pending(1) [OF fl]
  show "concat (prepare_tasks dg rf st files)
     = filter (\<lambda>(k, t). \<not> up_to_date st k (dg t)) (clean_chunks rf files)"
    by (auto simp: prepare_tasks_def fl)
  from files_loop_pending(2) [OF fl] have "\<forall>b\<in>set tasks. b \<noteq> []" by simp
  then show "[] \<notin> set (prepare_tasks dg rf st files)"
    by (auto simp: prepare_tasks_def fl)
qed


lemma clean_chunks_origin:
  assumes "(k, t) \<in> set (clean_chunks rf files)"
  shows "\<exists>fp raw ct sfx. (fp, Some raw) \<in> set files \<and> (ct, sfx) \<in> set (file_chunks_of rf fp raw)
           \<and> k = fp @ sfx \<and> t = sanitize_content ct \<and> t \<noteq> []"
  using assms
proof (induction files)
  case Nil
  then show ?case by (simp add: clean_chunks_def)
next
  case (Cons f files)
  obtain fp content where f: "f = (fp, content)" by (cases f) auto
  show ?case
  proof (cases content)
    case None
    with Cons f show ?thesis by (auto simp: clean_chunks_Cons_None)
  next
    case (Some raw)
    from Cons.prems have "(k, t) \<in> set (filter (\<lambda>(k, t). t \<noteq> [])
         (map (\<lambda>(ct, sfx). (fp @ sfx, sanitize_content ct)) (file_chunks_of rf fp raw))
       @ clean_chunks rf files)"
      unfolding f Some clean_chunks_Cons_Some .
    then consider
      (here) "(k, t) \<in> set (filter (\<lambda>(k, t). t \<noteq> [])
         (map (\<lambda>(ct, sfx). (fp @ sfx, sanitize_content ct)) (file_chunks_of rf fp raw)))"
      | (later) "(k, t) \<in> set (clean_chunks rf files)"
      unfolding set_append Un_iff by blast
    then show ?thesis
    proof cases
      case here
      then obtain ct sfx where "(ct, sfx) \<in> set (file_chunks_of rf fp raw)"
        "k = fp @ sfx" "t = sanitize_content ct" "t \<noteq> []" by auto
      with f Some show ?thesis by auto
    next
      case later
      from Cons.IH [OF this] show ?thesis by auto
    qed
  qed
qed

lemma worker_vectors:
  assumes "(p, v, h, s) \<in> set (embed_batch_worker dg em D batch)"
  shows "\<exists>vs. em D (map snd batch) = Some vs \<and> v \<in> set vs"
proof -
  from assms obtain vs where em: "em D (map snd batch) = Some vs"
    by (cases "em D (map snd batch)") (auto simp: embed_batch_worker_def Let_def)
  with assms obtain t where
    z: "(p, v, t) \<in> set (zip (map fst batch) (zip vs (map snd batch)))"
    by (auto simp: embed_batch_worker_def Let_def split: if_splits)
  from z have "(v, t) \<in> set (zip vs (map snd batch))" by (rule set_zip_rightD)
  then have "v \<in> set vs" by (rule set_zip_leftD)
  with em show ?thesis by blast
qed

lemma run_results_origin:
  assumes "(k, v, h, s) \<in> set (concat (map (embed_batch_worker dg em D)
              (as_completed (prepare_tasks dg rf st files) choices)))"
  shows "\<exists>t texts vs. (k, t) \<in> set (clean_chunks rf files) \<and> h = dg t \<and> s = take 200 t
           \<and> em D texts = Some vs \<and> v \<in> set vs"
proof -
  from assms obtain batch where b: "batch \<in> set (prepare_tasks dg rf st files)"
    and r: "(k, v, h, s) \<in> set (embed_batch_worker dg em D batch)" by auto
  from worker_origin [OF r] obtain t where t: "(k, t) \<in> set batch" "h = dg t" "s = take 200 t"
    by blast
  from worker_vectors [OF r] obtain vs where vs: "em D (map snd batch) = Some vs" "v \<in> set vs"
    by blast
  from b t(1) have "(k, t) \<in> set (concat (prepare_tasks dg rf st files))" by auto
  then have "(k, t) \<in> set (clean_chunks rf files)"
    by (simp add: prepare_tasks_pending)
  with t vs show ?thesis by blast
qed

lemma example_tasks:
  "prepare_tasks example_digest None example_empty example_files = [[(''a.txt::main'', ''hello world'')]]"
  by code_simp

lemma example_run_index:
  "index (state_after (run_indexing utf8_console example_digest example_embedder None [] [] example_files 0
       example_empty empty_disk))
   = [(''a.txt::main'', \<lparr>vector = [1, 0], hash = ''dlrow olleh'', snippet = ''hello world''\<rparr>)]"
proof -
  let ?run = "run_indexing utf8_console example_digest example_embedder None [] [] example_files 0
       example_empty empty_disk"
  have "\<not> raised ?run" by (rule run_indexing_no_raise) (simp add: utf8_console_def)
  with run_indexing_state [of example_digest example_embedder example_empty None 0 example_files "[]"
      utf8_console "[]" empty_disk]
  have "index (state_after ?run)
    = index (merge_results
        (embed_batch_worker example_digest example_embedder (dimension example_empty)
           [(''a.txt::main'', ''hello world'')]) example_empty)"
    by (auto simp: example_tasks)
  also have "\<dots> = [(''a.txt::main'',
       \<lparr>vector = [1, 0], hash = ''dlrow olleh'', snippet = ''hello world''\<rparr>)]"
    by (simp add: embed_batch_worker_def example_embedder_def example_digest_def example_empty_def)
  finally show ?thesis .
qed





subsection \<open>The claims about the indexing run\<close>

text \<open>
  C10. An entry of the store after an indexing run is either an entry the store had
  before, unchanged, or an entry merged during the run; a merged entry belongs to a chunk
  of one of the files, its snippet is exactly the first 200 characters of the sanitized
  text of that chunk (so it is at most 200 characters long and a prefix of the sanitized
  text, not of the raw chunk), and its hash is the digest of that sanitized text.
\<close>

theorem stored_snippet_is_sanitized_prefix:
  "map_of (index (state_after
       (run_indexing stdout_encodes digest embed_content rf choices faults files limit st d))) key
     = Some e \<Longrightarrow>
   map_of (index st) key = Some e \<or>
   (\<exists>file_path raw_text chunk_text chunk_suffix.
      (file_path, Some raw_text) \<in> set files
      \<and> (chunk_text, chunk_suffix) \<in> set (file_chunks_of rf file_path raw_text)
      \<and> key = file_path @ chunk_suffix
      \<and> snippet e = take 200 (sanitize_content chunk_text)
      \<and> hash e = digest (sanitize_content chunk_text)
      \<and> length (snippet e) \<le> 200
      \<and> prefix (snippet e) (sanitize_content chunk_text))"
proof -
  let ?files = "if limit > 0 then take (nat limit) files else files"
  let ?R = "concat (map (embed_batch_worker digest embed_content (dimension st))
              (as_completed (prepare_tasks digest rf st ?files) choices))"
  assume stored: "map_of (index (state_after
       (run_indexing stdout_encodes digest embed_content rf choices faults files limit st d))) key
     = Some e"
  from run_indexing_state [of digest embed_content st rf limit files choices stdout_encodes faults d]
  obtain ps where ps: "prefix ps ?R"
    "index (state_after
       (run_indexing stdout_encodes digest embed_content rf choices faults files limit st d))
     = index (merge_results ps st)" by blast
  from stored ps(2) have "map_of (index (merge_results ps st)) key = Some e" by simp
  from merge_results_origin [OF this] show ?thesis
  proof
    assume "map_of (index st) key = Some e"
    then show ?thesis by (rule disjI1)
  next
    assume "\<exists>vec h snip. (key, vec, h, snip) \<in> set ps \<and> e = \<lparr>vector = vec, hash = h, snippet = snip\<rparr>"
    then obtain vec h snip where r0: "(key, vec, h, snip) \<in> set ps"
      and e: "e = \<lparr>vector = vec, hash = h, snippet = snip\<rparr>" by blast
    from r0 ps(1) have r: "(key, vec, h, snip) \<in> set ?R"
      by (rule subsetD [OF set_mono_prefix, rotated])
    from run_results_origin [OF r] obtain t where
      t: "(key, t) \<in> set (clean_chunks rf ?files)" "h = digest t" "snip = take 200 t" by blast
    from clean_chunks_origin [OF t(1)] obtain fp raw ct sfx where
      o: "(fp, Some raw) \<in> set ?files" "(ct, sfx) \<in> set (file_chunks_of rf fp raw)"
         "key = fp @ sfx" "t = sanitize_content ct" by blast
    from o(1) have "(fp, Some raw) \<in> set files"
      by (auto split: if_splits dest: in_set_takeD)
    moreover have "snippet e = take 200 (sanitize_content ct)" "hash e = digest (sanitize_content ct)"
      using e t o by simp_all
    moreover have "length (snippet e) \<le> 200" "prefix (snippet e) (sanitize_content ct)"
      using e t o by (simp_all add: take_is_prefix)
    ultimately show ?thesis using o(2,3) by blast
  qed
qed

theorem stored_snippet_is_sanitized_prefix_witness:
  "map_of (index (state_after
       (run_indexing utf8_console example_digest example_embedder None [] [] example_files 0
          example_empty empty_disk)))
     ''a.txt::main''
     = Some \<lparr>vector = [1, 0], hash = ''dlrow olleh'', snippet = ''hello world''\<rparr>
   \<and> map_of (index example_empty) ''a.txt::main'' = None
   \<and> (\<exists>file_path raw_text chunk_text chunk_suffix.
      (file_path, Some raw_text) \<in> set example_files
      \<and> (chunk_text, chunk_suffix) \<in> set (file_chunks_of None file_path raw_text)
      \<and> ''a.txt::main'' = file_path @ chunk_suffix
      \<and> ''hello world'' = take 200 (sanitize_content chunk_text)
      \<and> ''dlrow olleh'' = example_digest (sanitize_content chunk_text))"
proof -
  have h: "map_of (index (state_after
       (run_indexing utf8_console example_digest example_embedder None [] [] example_files 0
          example_empty empty_disk)))
     ''a.txt::main''
     = Some \<lparr>vector = [1, 0], hash = ''dlrow olleh'', snippet = ''hello world''\<rparr>"
    by (simp add: example_run_index)
  have n: "map_of (index example_empty) ''a.txt::main'' = None"
    by (simp add: example_empty_def)
  from stored_snippet_is_sanitized_prefix [OF h] n h show ?thesis by auto
qed




subsection \<open>Persistence\<close>

lemma with_suffix_example: "with_suffix ''/data/mrl_index.pkl'' ''.tmp'' = ''/data/mrl_index.tmp''"
  by (simp add: with_suffix_def path_suffix_def path_name_def Let_def)

text \<open>
  Up to the unlink the snapshot file is not touched: a fault at \<open>open\<close>, at \<open>dump\<close> or
  at \<open>unlink\<close> leaves it as it was, and so does a call with nothing to save.
\<close>

lemma save_index_early_fault_keeps_snapshot:
  assumes "f = AtOpen \<or> f = AtDump \<or> f = AtUnlink"
    and "with_suffix (index_file st) ''.tmp'' \<noteq> index_file st"
    and "d (index_file st) \<noteq> None"
  shows "snd (save_index f st d) (index_file st) = d (index_file st)"
  using assms by (auto simp: save_index_def Let_def)

text \<open>
  Without a fault the snapshot file holds the whole index afterwards (when the temporary
  file is another file than the snapshot file, that is, when the snapshot file is not
  itself named \<open>.tmp\<close>).
\<close>

lemma save_index_completes:
  assumes "unsaved_changes st \<noteq> 0"
    and "with_suffix (index_file st) ''.tmp'' \<noteq> index_file st"
  shows "snd (save_index NoFault st d) (index_file st) = Some (Pickled (index st))"
    and "unsaved_changes (fst (save_index NoFault st d)) = 0"
  using assms by (auto simp: save_index_def Let_def rename_file_def)

text \<open>
  C1. The code does not keep what the claim asks for. \<open>save_index\<close> removes the snapshot
  file before it renames the temporary file, so a stop between the two (after the
  temporary file is written, before the rename) leaves no snapshot file at all: the
  earlier snapshot is neither byte-identical nor loadable, and a fresh indexer that loads
  the index finds nothing.
\<close>

theorem save_index_window_loses_snapshot:
  "example_disk ''/data/mrl_index.pkl'' = Some (Pickled example_old_index)
   \<and> index_file example_dirty = ''/data/mrl_index.pkl''
   \<and> snd (save_index AtRename example_dirty example_disk) ''/data/mrl_index.pkl'' = None
   \<and> snd (save_index AtRename example_dirty example_disk) ''/data/mrl_index.tmp''
       = Some (Pickled (index example_dirty))
   \<and> index (load_index example_empty (snd (save_index AtRename example_dirty example_disk))) = []"
  by (simp add: save_index_def load_index_def with_suffix_example example_dirty_def
      example_store_def example_empty_def example_disk_def Let_def)

subsection \<open>Properties of the search\<close>

lemma set_argsort [simp]: "set (argsort scores) = {0..<length scores}"
  by (simp add: argsort_def)

lemma length_argsort [simp]: "length (argsort scores) = length scores"
  by (simp add: argsort_def)

lemma distinct_argsort [simp]: "distinct (argsort scores)"
  by (simp add: argsort_def)

lemma argsort_ascending: "sorted (map (\<lambda>i. scores ! i) (argsort scores))"
  unfolding argsort_def by (rule sorted_sort_key)

lemma rev_argsort_descending:
  "sorted_wrt (\<lambda>a b. a \<ge> b) (map (\<lambda>i. scores ! i) (rev (argsort scores)))"
proof -
  have "sorted_wrt (\<lambda>a b. a \<ge> b) (rev (map (\<lambda>i. scores ! i) (argsort scores)))"
    unfolding sorted_wrt_rev using argsort_ascending [of scores] by simp
  then show ?thesis by (simp add: rev_map)
qed

lemma slice_to_is_take: "\<exists>m. slice_to k xs = take m xs"
  by (auto simp: slice_to_def)

lemma set_slice_to: "set (slice_to k xs) \<subseteq> set xs"
  by (auto simp: slice_to_def dest: in_set_takeD)

lemma length_slice_to_nonneg: "0 \<le> k \<Longrightarrow> length (slice_to k xs) = min (nat k) (length xs)"
  by (simp add: slice_to_def)

lemma slice_rev_argsort_descending:
  "sorted_wrt (\<lambda>a b. a \<ge> b) (map (\<lambda>i. scores ! i) (slice_to k (rev (argsort scores))))"
proof -
  obtain m where m: "slice_to k (rev (argsort scores)) = take m (rev (argsort scores))"
    using slice_to_is_take by blast
  have "sorted_wrt (\<lambda>a b. a \<ge> b) (take m (map (\<lambda>i. scores ! i) (rev (argsort scores))))"
    using rev_argsort_descending by (rule sorted_wrt_take)
  then show ?thesis by (simp add: m take_map)
qed

lemma set_select_candidates:
  "set (select_candidates scores_short n top_k) \<subseteq> {0..<length scores_short}"
  using set_slice_to [of _ "rev (argsort scores_short)"]
  by (simp add: select_candidates_def Let_def)

lemma np_dot_Inr:
  "np_dot matrix v = Inr sc \<Longrightarrow> sc = map (\<lambda>row. dot row v) matrix"
  by (auto simp: np_dot_def split: if_splits)

lemma stage1_scores_length:
  "stage1_scores matrix q_vec = Inr sc \<Longrightarrow> length sc = length matrix"
  by (auto simp: stage1_scores_def Let_def dest: np_dot_Inr)

lemma stage2_scores_nth:
  assumes "stage2_scores matrix cand q_vec = Inr sf"
  shows "length sf = length cand"
    and "idx < length cand \<Longrightarrow> sf ! idx = cosine_full (matrix ! (cand ! idx)) q_vec"
  using np_dot_Inr [OF assms [unfolded stage2_scores_def Let_def]]
  by (simp_all add: cosine_full_def)

lemma results_loop_hits:
  "h \<in> set (results_loop ix paths cand sf order acc) \<Longrightarrow>
   h \<in> set acc \<or>
   (\<exists>idx. idx \<in> set order \<and> idx < length cand \<and> cand ! idx < length paths \<and> idx < length sf \<and>
      path h = paths ! (cand ! idx) \<and> score h = sf ! idx)"
proof (induction order arbitrary: acc)
  case Nil
  then show ?case by simp
next
  case (Cons idx order)
  show ?case
  proof (cases "idx < length cand \<and> cand ! idx < length paths \<and> idx < length sf")
    case False
    with Cons.prems show ?thesis by auto
  next
    case inrange: True
    show ?thesis
    proof (cases "map_of ix (paths ! (cand ! idx))")
      case None
      with Cons.prems inrange show ?thesis by simp
    next
      case (Some e)
      let ?h = "\<lparr>path = paths ! (cand ! idx), score = sf ! idx,
                 hit_snippet = map (\<lambda>c. if c = CHR 0x0A then CHR '' '' else c) (snippet e)\<rparr>"
      from Cons.prems inrange Some
      have "h \<in> set (results_loop ix paths cand sf order (acc @ [?h]))" by simp
      from Cons.IH [OF this] inrange show ?thesis by auto
    qed
  qed
qed

lemma results_loop_scores:
  "\<exists>m. map score (results_loop ix paths cand sf order acc)
        = map score acc @ map (\<lambda>i. sf ! i) (take m order)"
proof (induction order arbitrary: acc)
  case Nil
  show ?case by simp
next
  case (Cons idx order)
  show ?case
  proof (cases "idx < length cand \<and> cand ! idx < length paths \<and> idx < length sf
                \<and> map_of ix (paths ! (cand ! idx)) \<noteq> None")
    case False
    then have "results_loop ix paths cand sf (idx # order) acc = acc"
      by (auto split: option.splits)
    then have "map score (results_loop ix paths cand sf (idx # order) acc)
        = map score acc @ map (\<lambda>i. sf ! i) (take 0 (idx # order))" by simp
    then show ?thesis by blast
  next
    case True
    then obtain e where e: "map_of ix (paths ! (cand ! idx)) = Some e" by auto
    let ?h = "\<lparr>path = paths ! (cand ! idx), score = sf ! idx,
               hit_snippet = map (\<lambda>c. if c = CHR 0x0A then CHR '' '' else c) (snippet e)\<rparr>"
    from Cons.IH [of "acc @ [?h]"] obtain m where
      "map score (results_loop ix paths cand sf order (acc @ [?h]))
         = map score (acc @ [?h]) @ map (\<lambda>i. sf ! i) (take m order)" by blast
    with True e have "map score (results_loop ix paths cand sf (idx # order) acc)
        = map score acc @ map (\<lambda>i. sf ! i) (take (Suc m) (idx # order))" by simp
    then show ?thesis by blast
  qed
qed

lemma results_loop_length_le:
  "length (results_loop ix paths cand sf order acc) \<le> length acc + length order"
proof -
  obtain m where "map score (results_loop ix paths cand sf order acc)
        = map score acc @ map (\<lambda>i. sf ! i) (take m order)"
    using results_loop_scores by blast
  then have "length (results_loop ix paths cand sf order acc) = length acc + length (take m order)"
    by (metis length_append length_map)
  then show ?thesis by simp
qed

lemma results_loop_complete:
  "(\<And>idx. idx \<in> set order \<Longrightarrow>
      idx < length cand \<and> cand ! idx < length paths \<and> idx < length sf \<and>
      map_of ix (paths ! (cand ! idx)) \<noteq> None) \<Longrightarrow>
   length (results_loop ix paths cand sf order acc) = length acc + length order"
proof (induction order arbitrary: acc)
  case Nil
  show ?case by simp
next
  case (Cons idx order)
  from Cons.prems [of idx] obtain e where
    ok: "idx < length cand" "cand ! idx < length paths" "idx < length sf"
    and e: "map_of ix (paths ! (cand ! idx)) = Some e" by auto
  let ?h = "\<lparr>path = paths ! (cand ! idx), score = sf ! idx,
             hit_snippet = map (\<lambda>c. if c = CHR 0x0A then CHR '' '' else c) (snippet e)\<rparr>"
  have "length (results_loop ix paths cand sf order (acc @ [?h])) = length (acc @ [?h]) + length order"
    by (rule Cons.IH) (use Cons.prems in auto)
  with ok e show ?case by simp
qed

lemma search_funnel_Inr:
  assumes "search_funnel paths matrix q_vec top_k = Inr f"
  obtains scores_short where
    "stage1_scores matrix q_vec = Inr scores_short"
    "candidate_idxs f = select_candidates scores_short (length paths) top_k"
    "stage2_scores matrix (candidate_idxs f) q_vec = Inr (scores_full f)"
    "final_order f = slice_to top_k (rev (argsort (scores_full f)))"
  using assms
  by (auto simp: search_funnel_def Let_def split: sum.splits)

lemma search_hits_origin:
  assumes "hits (search enc embed_query st query top_k) \<noteq> []"
  obtains q_vec st1 paths matrix f where
    "index st \<noteq> []"
    "embed_query (dimension st) query = Some q_vec"
    "prepare_cache st = (st1, Inr (paths, matrix))"
    "search_funnel paths matrix q_vec top_k = Inr f"
    "hits (search enc embed_query st query top_k)
       = results_loop (index st) paths (candidate_idxs f) (scores_full f) (final_order f) []"
  using assms
  by (auto simp: search_def search_try_def results_try_def
      split: if_splits option.splits prod.splits sum.splits)

lemma hits_in_shortlist:
  assumes h: "h \<in> set (hits (search enc embed_query st query top_k))"
  shows "(path h, score h) \<in> set (search_shortlist embed_query st query top_k)"
proof -
  from h have "hits (search enc embed_query st query top_k) \<noteq> []" by auto
  then obtain q_vec st1 paths matrix f where
    ne: "index st \<noteq> []"
    and q: "embed_query (dimension st) query = Some q_vec"
    and pc: "prepare_cache st = (st1, Inr (paths, matrix))"
    and fu: "search_funnel paths matrix q_vec top_k = Inr f"
    and hs: "hits (search enc embed_query st query top_k)
       = results_loop (index st) paths (candidate_idxs f) (scores_full f) (final_order f) []"
    by (rule search_hits_origin)
  from fu obtain scores_short where
    s1: "stage1_scores matrix q_vec = Inr scores_short"
    and cand: "candidate_idxs f = select_candidates scores_short (length paths) top_k"
    and s2: "stage2_scores matrix (candidate_idxs f) q_vec = Inr (scores_full f)"
    by (rule search_funnel_Inr)
  from h hs results_loop_hits [of h "index st" paths "candidate_idxs f" "scores_full f" "final_order f" "[]"]
  obtain idx where idx: "idx < length (candidate_idxs f)"
      "candidate_idxs f ! idx < length paths"
      "path h = paths ! (candidate_idxs f ! idx)" "score h = scores_full f ! idx"
    by auto
  let ?c = "candidate_idxs f ! idx"
  have sc: "score h = cosine_full (matrix ! ?c) q_vec"
    using stage2_scores_nth(2) [OF s2 idx(1)] idx(4) by simp
  have "?c \<in> set (filter (\<lambda>i. i < length paths) (select_candidates scores_short (length paths) top_k))"
    using idx(1,2) cand nth_mem [OF idx(1)] by simp
  then have "(paths ! ?c, cosine_full (matrix ! ?c) q_vec)
     \<in> set (map (\<lambda>i. (paths ! i, cosine_full (matrix ! i) q_vec))
         (filter (\<lambda>i. i < length paths) (select_candidates scores_short (length paths) top_k)))"
    unfolding set_map by (rule imageI)
  then show ?thesis
    using ne q pc s1 idx(3) sc by (simp add: search_shortlist_def)
qed

text \<open>
  C4. Whatever the indexer, the query and \<open>top_k\<close>, every result of \<open>search\<close> is a
  stage-1 candidate: its key is the key of a position on the shortlist, and its score is
  the full-dimension score stage 2 computes for that position. Stage 2 scores and ranks
  the shortlist only.
\<close>

theorem results_within_shortlist:
  "set (map (\<lambda>h. (path h, score h)) (hits (search enc embed_query st query top_k)))
     \<subseteq> set (search_shortlist embed_query st query top_k)"
  using hits_in_shortlist by auto

lemma search_hits_form:
  "hits (search enc embed_query st query top_k) = [] \<or>
   (\<exists>paths cand sf. hits (search enc embed_query st query top_k)
      = results_loop (index st) paths cand sf (slice_to top_k (rev (argsort sf))) [])"
proof (cases "hits (search enc embed_query st query top_k) = []")
  case True
  then show ?thesis by simp
next
  case False
  then obtain q_vec st1 paths matrix f where
    fu: "search_funnel paths matrix q_vec top_k = Inr f"
    and hs: "hits (search enc embed_query st query top_k)
       = results_loop (index st) paths (candidate_idxs f) (scores_full f) (final_order f) []"
    by (rule search_hits_origin)
  from fu have "final_order f = slice_to top_k (rev (argsort (scores_full f)))"
    by (rule search_funnel_Inr)
  with hs show ?thesis by metis
qed

lemma search_length_le:
  assumes "0 \<le> top_k"
  shows "int (length (hits (search enc embed_query st query top_k))) \<le> top_k"
proof -
  from search_hits_form [of enc embed_query st query top_k]
  show ?thesis
  proof
    assume "hits (search enc embed_query st query top_k) = []"
    with assms show ?thesis by simp
  next
    assume "\<exists>paths cand sf. hits (search enc embed_query st query top_k)
      = results_loop (index st) paths cand sf (slice_to top_k (rev (argsort sf))) []"
    then obtain paths cand sf where hs: "hits (search enc embed_query st query top_k)
      = results_loop (index st) paths cand sf (slice_to top_k (rev (argsort sf))) []" by blast
    have "length (hits (search enc embed_query st query top_k))
        \<le> length (slice_to top_k (rev (argsort sf)))"
      using results_loop_length_le [of "index st" paths cand sf "slice_to top_k (rev (argsort sf))" "[]"]
      by (simp add: hs)
    also have "\<dots> \<le> nat top_k"
      using assms by (simp add: length_slice_to_nonneg)
    finally show ?thesis using assms by simp
  qed
qed

lemma search_sorted:
  "sorted_wrt (\<lambda>a b. score a \<ge> score b) (hits (search enc embed_query st query top_k))"
proof -
  from search_hits_form [of enc embed_query st query top_k]
  show ?thesis
  proof
    assume "hits (search enc embed_query st query top_k) = []"
    then show ?thesis by simp
  next
    assume "\<exists>paths cand sf. hits (search enc embed_query st query top_k)
      = results_loop (index st) paths cand sf (slice_to top_k (rev (argsort sf))) []"
    then obtain paths cand sf where hs: "hits (search enc embed_query st query top_k)
      = results_loop (index st) paths cand sf (slice_to top_k (rev (argsort sf))) []" by blast
    obtain m where m: "map score (hits (search enc embed_query st query top_k))
        = map (\<lambda>i. sf ! i) (take m (slice_to top_k (rev (argsort sf))))"
      using results_loop_scores [of "index st" paths cand sf "slice_to top_k (rev (argsort sf))" "[]"]
      by (auto simp: hs)
    have "sorted_wrt (\<lambda>a b. a \<ge> b) (take m (map (\<lambda>i. sf ! i) (slice_to top_k (rev (argsort sf)))))"
      using slice_rev_argsort_descending by (rule sorted_wrt_take)
    then have "sorted_wrt (\<lambda>a b. a \<ge> b) (map score (hits (search enc embed_query st query top_k)))"
      by (simp add: m take_map)
    then show ?thesis by (simp add: sorted_wrt_map)
  qed
qed

lemma np_stack_uniform:
  assumes "vectors \<noteq> []" "list_all (\<lambda>w. length w = n) vectors"
  shows "np_stack vectors = Inr vectors"
proof -
  from assms(1) obtain v vs where v: "vectors = v # vs" by (cases vectors) auto
  with assms(2) have "list_all (\<lambda>w. length w = length v) vectors"
    by (auto simp: list_all_iff)
  with v show ?thesis by (simp add: np_stack_def)
qed

lemma prepare_cache_ok:
  assumes "cache_ok st" "index st \<noteq> []"
    "list_all (\<lambda>kv. length (vector (snd kv)) = n) (index st)"
  shows "\<exists>st1. prepare_cache st
     = (st1, Inr (map fst (index st), map (\<lambda>kv. vector (snd kv)) (index st)))"
proof (cases "\<exists>matrix paths. matrix_cache st = Some matrix \<and> paths_cache st = Some paths")
  case True
  with assms(1) show ?thesis
    by (auto simp: cache_ok_def prepare_cache_def)
next
  case False
  have "np_stack (map (\<lambda>kv. vector (snd kv)) (index st)) = Inr (map (\<lambda>kv. vector (snd kv)) (index st))"
    using assms(2,3) by (intro np_stack_uniform [where n = n]) (auto simp: list_all_iff)
  with False show ?thesis
    by (auto simp: prepare_cache_def Let_def split: option.splits)
qed

lemma stage1_scores_ok:
  assumes "list_all (\<lambda>row. length row = length q_vec) matrix"
  shows "\<exists>sc. stage1_scores matrix q_vec = Inr sc \<and> length sc = length matrix"
  using assms
  by (auto simp: stage1_scores_def Let_def np_dot_def normalize_row_def list_all_iff)

lemma stage2_scores_ok:
  assumes "list_all (\<lambda>row. length row = length q_vec) matrix"
    "set cand \<subseteq> {0..<length matrix}"
  shows "\<exists>sf. stage2_scores matrix cand q_vec = Inr sf \<and> length sf = length cand"
  using assms
  by (auto simp: stage2_scores_def Let_def np_dot_def normalize_row_def list_all_iff)

lemma nat_min_int: "nat (min a (int n)) = min (nat a) n"
  by arith

lemma length_select_candidates:
  assumes "0 \<le> top_k" "length scores_short = n"
  shows "length (select_candidates scores_short n top_k) = min (nat (top_k * 15)) n"
proof -
  have a: "0 \<le> min (top_k * 15) (int n)"
    using assms(1) by simp
  have "length (slice_to (min (top_k * 15) (int n)) (rev (argsort scores_short)))
      = min (nat (min (top_k * 15) (int n))) (length (rev (argsort scores_short)))"
    using a by (rule length_slice_to_nonneg)
  also have "\<dots> = min (min (nat (top_k * 15)) n) n"
    using assms(2) by (simp only: nat_min_int length_rev length_argsort)
  also have "\<dots> = min (nat (top_k * 15)) n" by simp
  finally show ?thesis
    by (simp add: select_candidates_def Let_def SHORTLIST_FACTOR_def)
qed

lemma top_k_le_shortlist:
  assumes "0 \<le> top_k" "top_k \<le> int n"
  shows "nat top_k \<le> min (nat (top_k * 15)) n"
  using assms by arith

lemma search_exact:
  assumes k: "0 \<le> top_k"
    and pr: "enc (results_header query)"
    and ok: "cache_ok st"
    and q: "embed_query (dimension st) query = Some q_vec"
    and dims: "list_all (\<lambda>kv. length (vector (snd kv)) = length q_vec) (index st)"
    and enough: "top_k \<le> int (length (index st))"
  shows "int (length (hits (search enc embed_query st query top_k))) = top_k"
proof (cases "index st = []")
  case True
  with k enough show ?thesis by (simp add: search_def)
next
  case ne: False
  let ?paths = "map fst (index st)"
  let ?matrix = "map (\<lambda>kv. vector (snd kv)) (index st)"
  from prepare_cache_ok [OF ok ne dims] obtain st1 where
    pc: "prepare_cache st = (st1, Inr (?paths, ?matrix))" by blast
  have rows: "list_all (\<lambda>row. length row = length q_vec) ?matrix"
    using dims by (simp add: list_all_iff)
  from stage1_scores_ok [OF rows] obtain sc where
    s1: "stage1_scores ?matrix q_vec = Inr sc" and lsc: "length sc = length (index st)" by auto
  let ?cand = "select_candidates sc (length ?paths) top_k"
  have cand_set: "set ?cand \<subseteq> {0..<length ?matrix}"
    using set_select_candidates [of sc "length ?paths" top_k] lsc by simp
  from stage2_scores_ok [OF rows cand_set] obtain sf where
    s2: "stage2_scores ?matrix ?cand q_vec = Inr sf" and lsf: "length sf = length ?cand" by auto
  let ?final = "slice_to top_k (rev (argsort sf))"
  have fu: "search_funnel ?paths ?matrix q_vec top_k
      = Inr \<lparr>candidate_idxs = ?cand, scores_full = sf, final_order = ?final\<rparr>"
    unfolding search_funnel_def Let_def by (simp only: s1 s2 sum.case)
  have "search_try enc embed_query st query top_k
      = (st1, Inr (results_loop (index st) ?paths ?cand sf ?final []))"
    unfolding search_try_def
    by (simp only: q pc fu option.case prod.case sum.case funnel.simps results_try_def pr if_True)
  then have hs: "hits (search enc embed_query st query top_k)
      = results_loop (index st) ?paths ?cand sf ?final []"
    using ne by (simp add: search_def)
  have lcand: "length ?cand = min (nat (top_k * 15)) (length (index st))"
    using length_select_candidates [OF k, of sc "length ?paths"] lsc by simp
  have "nat top_k \<le> length ?cand"
    unfolding lcand using k enough by (rule top_k_le_shortlist)
  then have lfinal: "length ?final = nat top_k"
    using k lsf by (simp add: length_slice_to_nonneg)
  have "length (results_loop (index st) ?paths ?cand sf ?final []) = length ([] :: hit list) + length ?final"
  proof (rule results_loop_complete)
    fix idx assume "idx \<in> set ?final"
    then have "idx \<in> set (rev (argsort sf))" by (rule subsetD [OF set_slice_to])
    then have i1: "idx < length sf" by simp
    then have i2: "idx < length ?cand" using lsf by simp
    then have "?cand ! idx \<in> set ?cand" by (rule nth_mem)
    then have "?cand ! idx \<in> {0..<length ?matrix}" by (rule subsetD [OF cand_set])
    then have i3: "?cand ! idx < length (index st)" by simp
    then have "index st ! (?cand ! idx) \<in> set (index st)" by (rule nth_mem)
    then have "fst (index st ! (?cand ! idx)) \<in> fst ` set (index st)" by (rule imageI)
    then have "map_of (index st) (fst (index st ! (?cand ! idx))) \<noteq> None"
      by (simp add: map_of_eq_None_iff)
    with i1 i2 i3 show "idx < length ?cand \<and> ?cand ! idx < length ?paths \<and> idx < length sf \<and>
      map_of (index st) (?paths ! (?cand ! idx)) \<noteq> None" by simp
  qed
  with hs lfinal k show ?thesis by simp
qed

lemma select_candidates_is_take:
  "\<exists>m. select_candidates scores_short n top_k = take m (rev (argsort scores_short))"
  unfolding select_candidates_def Let_def by (rule slice_to_is_take)

lemma distinct_select_candidates: "distinct (select_candidates scores_short n top_k)"
proof -
  obtain m where "select_candidates scores_short n top_k = take m (rev (argsort scores_short))"
    using select_candidates_is_take by blast
  then show ?thesis by simp
qed

lemma select_candidates_descending:
  "sorted_wrt (\<lambda>a b. a \<ge> b) (map (\<lambda>i. scores_short ! i) (select_candidates scores_short n top_k))"
  unfolding select_candidates_def Let_def by (rule slice_rev_argsort_descending)

lemma select_candidates_top:
  assumes i: "i \<in> set (select_candidates scores_short n top_k)"
    and j: "j < length scores_short" "j \<notin> set (select_candidates scores_short n top_k)"
  shows "scores_short ! j \<le> scores_short ! i"
proof -
  let ?l = "rev (argsort scores_short)"
  obtain m where m: "select_candidates scores_short n top_k = take m ?l"
    using select_candidates_is_take by blast
  have "j \<in> set ?l" using j(1) by simp
  then have "j \<in> set (take m ?l) \<union> set (drop m ?l)"
    by (simp only: set_append [symmetric] append_take_drop_id)
  with j(2) m have jd: "j \<in> set (drop m ?l)" by simp
  have "sorted_wrt (\<lambda>a b. a \<ge> b) (map (\<lambda>i. scores_short ! i) (take m ?l @ drop m ?l))"
    using rev_argsort_descending [of scores_short] by (simp only: append_take_drop_id)
  then have "\<forall>x\<in>set (map (\<lambda>i. scores_short ! i) (take m ?l)).
             \<forall>y\<in>set (map (\<lambda>i. scores_short ! i) (drop m ?l)). x \<ge> y"
    unfolding map_append sorted_wrt_append by blast
  moreover have "scores_short ! i \<in> set (map (\<lambda>i. scores_short ! i) (take m ?l))"
    using i m by simp
  moreover have "scores_short ! j \<in> set (map (\<lambda>i. scores_short ! i) (drop m ?l))"
    using jd by simp
  ultimately show ?thesis by blast
qed

lemma np_norm_unit: "np_norm [1, 0] = 1"
  by (simp add: np_norm_def)

subsection \<open>The claims about the search\<close>

text \<open>
  C5, as amended. For a non-negative \<open>top_k\<close>, the shortlist of stage 1 holds
  \<open>min (top_k * shortlist_factor, total_count)\<close> distinct positions, in descending order
  of their low-dimension score, and no position left out scores higher than a position
  taken. Nothing is promised to the earlier of two positions with equal scores.
\<close>

theorem shortlist_selection:
  "0 \<le> top_k \<Longrightarrow> length scores_short = n \<Longrightarrow>
     length (select_candidates scores_short n top_k) = min (nat (top_k * SHORTLIST_FACTOR)) n
   \<and> distinct (select_candidates scores_short n top_k)
   \<and> set (select_candidates scores_short n top_k) \<subseteq> {0..<n}
   \<and> sorted_wrt (\<lambda>a b. a \<ge> b)
         (map (\<lambda>i. scores_short ! i) (select_candidates scores_short n top_k))
   \<and> (i \<in> set (select_candidates scores_short n top_k) \<and> j < n
         \<and> j \<notin> set (select_candidates scores_short n top_k)
       \<longrightarrow> scores_short ! j \<le> scores_short ! i)"
  using length_select_candidates [of top_k scores_short n]
    distinct_select_candidates [of scores_short n top_k]
    set_select_candidates [of scores_short n top_k]
    select_candidates_descending [of scores_short n top_k]
    select_candidates_top [of i scores_short n top_k j]
  by (simp add: SHORTLIST_FACTOR_def)

theorem shortlist_selection_witness:
  "(0::int) \<le> 1 \<and> length example_scores = 17
   \<and> 16 \<in> set (select_candidates example_scores 17 1) \<and> (0::nat) < 17
   \<and> 0 \<notin> set (select_candidates example_scores 17 1)
   \<and> length (select_candidates example_scores 17 1) = 15
   \<and> example_scores ! 0 \<le> example_scores ! 16"
proof -
  have sel: "select_candidates example_scores 17 1 = [16, 15, 14, 13, 12, 11, 10, 9, 8, 7, 6, 5, 4, 3, 2]"
    by (simp add: select_candidates_def example_scores_def SHORTLIST_FACTOR_def slice_to_def
        argsort_def upt_rec)
  have h1: "(0::int) \<le> 1" by simp
  have h2: "length example_scores = 17" by (simp add: example_scores_def)
  have h3: "16 \<in> set (select_candidates example_scores 17 1)" by (simp add: sel)
  have h4: "0 \<notin> set (select_candidates example_scores 17 1)" by (simp add: sel)
  from shortlist_selection [OF h1 h2, of 16 0] h3 h4
  have "example_scores ! 0 \<le> example_scores ! 16" by simp
  with h2 h3 h4 sel show ?thesis by simp
qed

text \<open>
  C5 as stated fails on a tie: of two stored vectors with equal stage-1 scores, the one at
  the later position comes first on the shortlist.
\<close>

theorem shortlist_tie_counterexample:
  "stage1_scores [[1, 0], [1, 0]] [1, 0]
     = Inr [1000000000000000000 / 1000000002000000001, 1000000000000000000 / 1000000002000000001]
   \<and> select_candidates
        [1000000000000000000 / 1000000002000000001, 1000000000000000000 / 1000000002000000001] 2 1
     = [1, 0]
   \<and> map fst (search_shortlist embed_ok example_store ''x'' 1) = [''b.txt::main'', ''a.txt::main'']"
proof -
  have "stage1_scores [[1, 0], [1, 0]] [1, 0]
     = Inr [1000000000000000000 / 1000000002000000001, 1000000000000000000 / 1000000002000000001]"
    by (simp add: stage1_scores_def Let_def SHORTLIST_DIM_def normalize_row_def np_norm_unit
        np_dot_def dot_def)
  moreover have "select_candidates
        [1000000000000000000 / 1000000002000000001, 1000000000000000000 / 1000000002000000001] 2 1
     = [1, 0]"
    by (simp add: select_candidates_def SHORTLIST_FACTOR_def slice_to_def argsort_def)
  moreover have "map fst (search_shortlist embed_ok example_store ''x'' 1)
     = [''b.txt::main'', ''a.txt::main'']"
    by (simp add: search_shortlist_def example_store_def embed_ok_def prepare_cache_def
        np_stack_def stage1_scores_def select_candidates_def SHORTLIST_FACTOR_def cosine_full_def
        SHORTLIST_DIM_def slice_to_def argsort_def normalize_row_def np_norm_unit np_dot_def
        dot_def Let_def)
  ultimately show ?thesis by blast
qed

text \<open>
  C8, as amended. For a non-negative \<open>top_k\<close>, \<open>search\<close> returns at most \<open>top_k\<close>
  results, in descending order of score. It returns exactly \<open>top_k\<close> of them when the
  store holds at least \<open>top_k\<close> entries, the query is embedded, the console can print
  the header that carries the query, the stored vectors and the query vector have one
  length, and the cache is consistent.
\<close>

theorem search_length_and_order:
  "0 \<le> top_k \<Longrightarrow>
     int (length (hits (search enc embed_query st query top_k))) \<le> top_k
   \<and> sorted_wrt (\<lambda>a b. score a \<ge> score b) (hits (search enc embed_query st query top_k))
   \<and> (cache_ok st \<and> embed_query (dimension st) query = Some q_vec
        \<and> enc (results_header query)
        \<and> list_all (\<lambda>kv. length (vector (snd kv)) = length q_vec) (index st)
        \<and> top_k \<le> int (length (index st))
       \<longrightarrow> int (length (hits (search enc embed_query st query top_k))) = top_k)"
proof (intro conjI impI)
  assume k: "0 \<le> top_k"
  show "int (length (hits (search enc embed_query st query top_k))) \<le> top_k"
    using k by (rule search_length_le)
  show "sorted_wrt (\<lambda>a b. score a \<ge> score b) (hits (search enc embed_query st query top_k))"
    by (rule search_sorted)
  assume h: "cache_ok st \<and> embed_query (dimension st) query = Some q_vec
        \<and> enc (results_header query)
        \<and> list_all (\<lambda>kv. length (vector (snd kv)) = length q_vec) (index st)
        \<and> top_k \<le> int (length (index st))"
  show "int (length (hits (search enc embed_query st query top_k))) = top_k"
    by (rule search_exact [where q_vec = q_vec]) (use k h in simp_all)
qed

theorem search_length_and_order_witness:
  "(0::int) \<le> 1 \<and> cache_ok example_store
   \<and> embed_ok (dimension example_store) ''x'' = Some [1, 0]
   \<and> utf8_console (results_header ''x'')
   \<and> list_all (\<lambda>kv. length (vector (snd kv)) = length [1, 0 :: real]) (index example_store)
   \<and> 1 \<le> int (length (index example_store))
   \<and> int (length (hits (search utf8_console embed_ok example_store ''x'' 1))) = 1
   \<and> sorted_wrt (\<lambda>a b. score a \<ge> score b) (hits (search utf8_console embed_ok example_store ''x'' 1))"
proof -
  have h0: "(0::int) \<le> 1" by simp
  have h1: "cache_ok example_store" by (simp add: cache_ok_def example_store_def)
  have h2: "embed_ok (dimension example_store) ''x'' = Some [1, 0]" by (simp add: embed_ok_def)
  have h3: "list_all (\<lambda>kv. length (vector (snd kv)) = length [1, 0 :: real]) (index example_store)"
    by (simp add: example_store_def)
  have h4: "1 \<le> int (length (index example_store))" by (simp add: example_store_def)
  have h5: "utf8_console (results_header ''x'')" by (simp add: utf8_console_def)
  from search_length_and_order [where top_k = 1 and enc = utf8_console and embed_query = embed_ok
      and st = example_store and query = "''x''" and q_vec = "[1, 0]"] h0 h1 h2 h3 h4 h5
  show ?thesis by blast
qed

text \<open>
  C8 as stated fails: for \<open>top_k = -1\<close> the result cannot be at most \<open>top_k\<close> long; a
  store of two entries searched with \<open>top_k = 1\<close> gives no result when the embedding
  service is down; and it gives no result either when the console is ASCII and the query
  is not (here the one character \<open>0xE9\<close>), because the header cannot be printed.
\<close>

theorem search_count_counterexample:
  "\<not> int (length (hits (search utf8_console embed_ok example_store ''x'' (- 1)))) \<le> - 1
   \<and> 1 \<le> int (length (index example_store))
   \<and> hits (search utf8_console embed_down example_store ''x'' 1) = []
   \<and> hits (search ascii_console embed_ok example_store [CHR 0xE9] 1) = []"
proof -
  have "hits (search utf8_console embed_down example_store ''x'' 1) = []"
    by (simp add: search_def search_try_def example_store_def embed_down_def)
  moreover have "\<not> ascii_console (results_header [CHR 0xE9])"
    by (simp add: ascii_console_def results_header_def)
  then have "hits (search ascii_console embed_ok example_store [CHR 0xE9] 1) = []"
    by (simp add: search_def search_try_def results_try_def
        split: option.splits prod.splits sum.splits)
  ultimately show ?thesis by (simp add: example_store_def)
qed

text \<open>
  C9. Whatever the query and \<open>top_k\<close>, \<open>search\<close> on an empty store returns the empty
  list, sends no query to the embedding service and leaves the indexer as it is. (The
  model of \<open>search\<close> has no raising branch at all.)
\<close>

theorem search_empty_store:
  "index st = [] \<Longrightarrow>
   search enc embed_query st query top_k = \<lparr>hits = [], embedded_queries = [], searcher_after = st\<rparr>"
  by (simp add: search_def)

theorem search_empty_store_witness:
  "index example_empty = []
   \<and> search utf8_console embed_ok example_empty ''x'' 5
       = \<lparr>hits = [], embedded_queries = [], searcher_after = example_empty\<rparr>"
proof -
  have h: "index example_empty = []" by (simp add: example_empty_def)
  from search_empty_store [of example_empty utf8_console embed_ok "''x''" 5] h show ?thesis by blast
qed

text \<open>
  C2, as amended. On a non-empty store, when the embedding of the query fails, the body
  of \<open>search\<close> raises, the \<open>except\<close> clause prints the error, and the caller gets the
  empty list: the same value as from a search that found nothing.
\<close>

theorem search_embedding_failure:
  "index st \<noteq> [] \<Longrightarrow> embed_query (dimension st) query = None \<Longrightarrow>
     search_try enc embed_query st query top_k = (st, Inl ServiceError)
   \<and> search enc embed_query st query top_k
       = \<lparr>hits = [], embedded_queries = [query], searcher_after = st\<rparr>"
  by (simp add: search_def search_try_def)

theorem search_embedding_failure_witness:
  "index example_store \<noteq> [] \<and> embed_down (dimension example_store) ''x'' = None
   \<and> search_try utf8_console embed_down example_store ''x'' 5 = (example_store, Inl ServiceError)
   \<and> search utf8_console embed_down example_store ''x'' 5
       = \<lparr>hits = [], embedded_queries = [''x''], searcher_after = example_store\<rparr>"
proof -
  have h1: "index example_store \<noteq> []" by (simp add: example_store_def)
  have h2: "embed_down (dimension example_store) ''x'' = None" by (simp add: embed_down_def)
  from search_embedding_failure [of example_store embed_down "''x''" utf8_console 5] h1 h2
  show ?thesis by blast
qed

text \<open>
  C2 as stated fails: with the embedding service down, a search on a store of two entries
  returns the empty list, which is also what a successful search with \<open>top_k = 0\<close>
  returns.
\<close>

theorem search_failure_counterexample:
  "index example_store \<noteq> []
   \<and> embed_down (dimension example_store) ''x'' = None
   \<and> hits (search utf8_console embed_down example_store ''x'' 5) = []
   \<and> hits (search utf8_console embed_ok example_store ''x'' 0) = []"
proof -
  have "hits (search utf8_console embed_ok example_store ''x'' 0) = []"
    by (simp add: search_def search_try_def results_try_def utf8_console_def example_store_def
        embed_ok_def prepare_cache_def np_stack_def search_funnel_def stage1_scores_def stage2_scores_def select_candidates_def
        SHORTLIST_FACTOR_def SHORTLIST_DIM_def slice_to_def argsort_def normalize_row_def
        np_norm_unit np_dot_def dot_def Let_def)
  moreover have "hits (search utf8_console embed_down example_store ''x'' 5) = []"
    by (simp add: search_def search_try_def example_store_def embed_down_def)
  ultimately show ?thesis by (simp add: example_store_def embed_down_def)
qed

end
